theory Spec2Isabelle
  imports Main "HOL-Library.Sublist"
begin

section \<open>Handler names (lib/handler.js)\<close>

text \<open>
  BPMN names are JavaScript strings. They are modelled as HOL strings, one \<open>char\<close> per
  code unit, which covers the code units 0 to 255; all characters the engine inspects
  lie in that range.
\<close>

text \<open>
  The character class of the regular expression in \<open>mapName2HandlerName\<close>, in the
  order in which the source lists it (the at-sign occurs twice there):
  \<open>: ! ` ~ ^ @ * # cent not c-cedilla ? broken-bar | & ; % @ " < > ( ) { } [ ] + ,\<close>
  space, tab, newline.
\<close>

definition nonAllowedChars :: "char list" where
  "nonAllowedChars =
     [CHR '':'', CHR ''!'', CHR 0x60, CHR ''~'', CHR ''^'', CHR ''@'', CHR ''*'', CHR ''#'',
      CHR 0xA2, CHR 0xAC, CHR 0xE7, CHR ''?'', CHR 0xA6, CHR ''|'', CHR ''&'', CHR '';'',
      CHR ''%'', CHR ''@'', CHR 0x22, CHR ''<'', CHR ''>'', CHR ''('', CHR '')'', CHR ''{'',
      CHR ''}'', CHR ''['', CHR '']'', CHR ''+'', CHR '','', CHR '' '', CHR 0x09, CHR 0x0A]"

definition isDigit :: "char \<Rightarrow> bool" where
  "isDigit c = (c \<in> set ''0123456789'')"

text \<open>\<open>name.replace(/[...]/g, '_')\<close>: every match is replaced.\<close>

definition replaceNonAllowed :: "string \<Rightarrow> string" where
  "replaceNonAllowed name = map (\<lambda>c. if c \<in> set nonAllowedChars then CHR ''_'' else c) name"

text \<open>\<open>cleanName.match(/^[0-9]/)\<close>: the first character of the input is a digit.\<close>

definition startsWithDigit :: "string \<Rightarrow> bool" where
  "startsWithDigit s = (case s of [] \<Rightarrow> False | c # _ \<Rightarrow> isDigit c)"

definition mapName2HandlerName :: "string \<Rightarrow> string" where
  "mapName2HandlerName name =
     (let cleanName = replaceNonAllowed name
      in if startsWithDigit cleanName then CHR ''_'' # cleanName else cleanName)"


section \<open>Tokens and process state (lib/state.js)\<close>

text \<open>
  \<open>Token\<close> carries a position and the id of the owning process.
  \<open>CallActivityToken\<close> adds \<open>substate\<close> (\<open>null\<close>, or the state object of the called
  process, given here by its token list) and \<open>calledProcessId\<close>.
\<close>

datatype token =
    Token string string
  | CallActivityToken string string "token list option" string

fun position :: "token \<Rightarrow> string" where
  "position (Token pos owner) = pos"
| "position (CallActivityToken pos owner sub called) = pos"

fun owningProcessId :: "token \<Rightarrow> string" where
  "owningProcessId (Token pos owner) = owner"
| "owningProcessId (CallActivityToken pos owner sub called) = owner"

text \<open>\<open>token.substate\<close>: undefined on a plain token, hence falsy like \<open>null\<close>.\<close>

fun substate :: "token \<Rightarrow> token list option" where
  "substate (Token pos owner) = None"
| "substate (CallActivityToken pos owner sub called) = sub"

text \<open>\<open>token.calledProcessId\<close>, read for its truthiness only: a non-empty string.\<close>

fun hasCalledProcessId :: "token \<Rightarrow> bool" where
  "hasCalledProcessId (Token pos owner) = False"
| "hasCalledProcessId (CallActivityToken pos owner sub called) = (called \<noteq> [])"

text \<open>
  \<open>_findTokens(flowObjectName, currentTokens, foundTokens)\<close> pushes onto the accumulator
  \<open>foundTokens\<close>; the model returns the accumulator.
\<close>

fun findTokens_into :: "string \<Rightarrow> token list \<Rightarrow> token list \<Rightarrow> token list" where
  "findTokens_into flowObjectName [] foundTokens = foundTokens"
| "findTokens_into flowObjectName (Token pos owner # rest) foundTokens =
     findTokens_into flowObjectName rest
       (if pos = flowObjectName then foundTokens @ [Token pos owner] else foundTokens)"
| "findTokens_into flowObjectName (CallActivityToken pos owner None called # rest) foundTokens =
     findTokens_into flowObjectName rest
       (if pos = flowObjectName then foundTokens @ [CallActivityToken pos owner None called]
        else foundTokens)"
| "findTokens_into flowObjectName (CallActivityToken pos owner (Some sub) called # rest) foundTokens =
     findTokens_into flowObjectName rest
       (findTokens_into flowObjectName sub
          (if pos = flowObjectName
           then foundTokens @ [CallActivityToken pos owner (Some sub) called]
           else foundTokens))"

definition createTokenAt :: "string \<Rightarrow> string \<Rightarrow> string \<Rightarrow> token list \<Rightarrow> token \<times> token list" where
  "createTokenAt flowObjectName owner called tokens =
     (let newToken = (if called \<noteq> [] then CallActivityToken flowObjectName owner None called
                      else Token flowObjectName owner)
      in (newToken, tokens @ [newToken]))"

definition findTokens :: "token list \<Rightarrow> string \<Rightarrow> token list" where
  "findTokens tokens flowObjectName = findTokens_into flowObjectName tokens []"

definition findCallActivityTokens :: "token list \<Rightarrow> token list" where
  "findCallActivityTokens tokens = filter hasCalledProcessId tokens"

definition getFirstToken :: "token list \<Rightarrow> string \<Rightarrow> token option" where
  "getFirstToken tokens flowObjectName =
     (case findTokens tokens flowObjectName of [] \<Rightarrow> None | t # _ \<Rightarrow> Some t)"

definition hasTokens :: "token list \<Rightarrow> string \<Rightarrow> bool" where
  "hasTokens tokens flowObjectName = (length (findTokens tokens flowObjectName) > 0)"

text \<open>
  \<open>removeTokenAt\<close>: the loop over \<open>oldTokens\<close> with its flag \<open>tokenHasBeenRemoved\<close> and
  the list \<open>newTokens\<close> it builds.
\<close>

fun removeTokenAt_loop :: "string \<Rightarrow> token list \<Rightarrow> bool \<Rightarrow> token list \<Rightarrow> token list" where
  "removeTokenAt_loop name [] tokenHasBeenRemoved newTokens = newTokens"
| "removeTokenAt_loop name (t # oldTokens) tokenHasBeenRemoved newTokens =
     (if tokenHasBeenRemoved then removeTokenAt_loop name oldTokens tokenHasBeenRemoved (newTokens @ [t])
      else if position t = name then removeTokenAt_loop name oldTokens True newTokens
      else removeTokenAt_loop name oldTokens tokenHasBeenRemoved (newTokens @ [t]))"

definition removeTokenAt :: "string \<Rightarrow> token list \<Rightarrow> token list" where
  "removeTokenAt name tokens = removeTokenAt_loop name tokens False []"

fun removeAllTokensAt_loop :: "string \<Rightarrow> token list \<Rightarrow> token list \<Rightarrow> token list" where
  "removeAllTokensAt_loop name [] newTokens = newTokens"
| "removeAllTokensAt_loop name (t # oldTokens) newTokens =
     (if position t \<noteq> name then removeAllTokensAt_loop name oldTokens (newTokens @ [t])
      else removeAllTokensAt_loop name oldTokens newTokens)"

definition removeAllTokensAt :: "string \<Rightarrow> token list \<Rightarrow> token list" where
  "removeAllTokensAt name tokens = removeAllTokensAt_loop name tokens []"

fun numberOfTokensAt_loop :: "string \<Rightarrow> token list \<Rightarrow> nat \<Rightarrow> nat" where
  "numberOfTokensAt_loop name [] count = count"
| "numberOfTokensAt_loop name (t # tokens) count =
     numberOfTokensAt_loop name tokens (if name = position t then count + 1 else count)"

definition numberOfTokensAt :: "string \<Rightarrow> token list \<Rightarrow> nat" where
  "numberOfTokensAt name tokens = numberOfTokensAt_loop name tokens 0"

section \<open>JavaScript values\<close>

text \<open>
  The data handed to handlers and the values handlers return. Numbers are integers
  (timestamps and durations in milliseconds); \<open>JNaN\<close> is the number \<open>NaN\<close>; \<open>JObj\<close> is a
  plain object with its own properties in insertion order.
\<close>

datatype jsval = Undefined | Null | JBool bool | JNum int | JNaN | JObj "(string \<times> jsval) list"

text \<open>The truthiness test of \<open>if (v)\<close> and \<open>v || w\<close>.\<close>

fun truthy :: "jsval \<Rightarrow> bool" where
  "truthy Undefined = False"
| "truthy Null = False"
| "truthy (JBool b) = b"
| "truthy (JNum n) = (n \<noteq> 0)"
| "truthy JNaN = False"
| "truthy (JObj props) = True"

text \<open>The global \<open>isNaN(v)\<close>: \<open>v\<close> converted to a number is \<open>NaN\<close>.\<close>

fun isNaN :: "jsval \<Rightarrow> bool" where
  "isNaN Undefined = True"
| "isNaN Null = False"
| "isNaN (JBool b) = False"
| "isNaN (JNum n) = False"
| "isNaN JNaN = True"
| "isNaN (JObj props) = True"

text \<open>The number a value that passed \<open>isNaN\<close> stands for in \<open>now + v\<close>.\<close>

fun toNumber :: "jsval \<Rightarrow> int" where
  "toNumber (JNum n) = n"
| "toNumber (JBool b) = (if b then 1 else 0)"
| "toNumber v = 0"

section \<open>History (lib/history.js)\<close>

text \<open>
  A history entry has a name, a type, the timestamps \<open>begin\<close> and \<open>end\<close> (\<open>null\<close> while
  open) and, for a call activity, the history of the called process. Timestamps are
  the integers \<open>Date.now()\<close> returns.
\<close>

datatype historyEntry =
    HistoryEntry (entryName: string) (entryType: string) (entryBegin: int)
      (entryEnd: "int option") (subhistory: "history option")
and history =
    History (historyEntries: "historyEntry list") (createdAt: int) (finishedAt: "int option")

text \<open>\<open>v || null\<close> on an optional timestamp: \<open>0\<close> is falsy.\<close>

fun orNull :: "int option \<Rightarrow> int option" where
  "orNull None = None"
| "orNull (Some t) = (if t = 0 then None else Some t)"

text \<open>
  \<open>new HistoryEntry(name, type, begin, end)\<close> with \<open>begin || getTimestamp()\<close> and
  \<open>end || null\<close>; \<open>getTimestamp\<close> returns \<open>ts\<close>.
\<close>

definition newHistoryEntry :: "int \<Rightarrow> string \<Rightarrow> string \<Rightarrow> int option \<Rightarrow> int option \<Rightarrow> historyEntry" where
  "newHistoryEntry ts n ty b e =
     HistoryEntry n ty (case orNull b of None \<Rightarrow> ts | Some t \<Rightarrow> t) (orNull e) None"

text \<open>
  \<open>new BPMNProcessHistory(history)\<close> for a given history: every entry is rebuilt by the
  \<open>HistoryEntry\<close> constructor, sub-histories recursively.
\<close>

primrec copyEntry :: "int \<Rightarrow> historyEntry \<Rightarrow> historyEntry"
  and copyHistory :: "int \<Rightarrow> history \<Rightarrow> history" where
  "copyEntry ts (HistoryEntry n ty b e sub) =
     HistoryEntry n ty (if b = 0 then ts else b) (orNull e) (map_option (copyHistory ts) sub)"
| "copyHistory ts (History entries created finished) =
     History (map (copyEntry ts) entries) created (orNull finished)"

text \<open>\<open>new BPMNProcessHistory()\<close> without an argument.\<close>

definition freshHistory :: "int \<Rightarrow> history" where
  "freshHistory ts = History [] ts None"

definition addEntry :: "int \<Rightarrow> string \<Rightarrow> string \<Rightarrow> history \<Rightarrow> history" where
  "addEntry ts n ty h =
     History (historyEntries h @ [newHistoryEntry ts n ty None None]) (createdAt h) (finishedAt h)"

text \<open>\<open>getLastEntry\<close>: the loop \<open>for (i = last; i >= 0; i--)\<close>; \<open>k\<close> is \<open>i + 1\<close>.\<close>

fun getLastEntry_loop :: "historyEntry list \<Rightarrow> string \<Rightarrow> nat \<Rightarrow> nat option" where
  "getLastEntry_loop entries flowObjectName 0 = None"
| "getLastEntry_loop entries flowObjectName (Suc i) =
     (if entryName (entries ! i) = flowObjectName then Some i
      else getLastEntry_loop entries flowObjectName i)"

definition getLastEntryIndex :: "history \<Rightarrow> string \<Rightarrow> nat option" where
  "getLastEntryIndex h flowObjectName =
     getLastEntry_loop (historyEntries h) flowObjectName (length (historyEntries h))"

definition getLastEntry :: "history \<Rightarrow> string \<Rightarrow> historyEntry option" where
  "getLastEntry h flowObjectName =
     map_option (\<lambda>i. historyEntries h ! i) (getLastEntryIndex h flowObjectName)"

text \<open>\<open>String.prototype.toLowerCase\<close> on the code units 0 to 255.\<close>

definition toLowerChar :: "char \<Rightarrow> char" where
  "toLowerChar c =
     (let k = (of_char c :: nat)
      in if (65 \<le> k \<and> k \<le> 90) \<or> (192 \<le> k \<and> k \<le> 222 \<and> k \<noteq> 215) then char_of (k + 32) else c)"

definition toLowerCase :: "string \<Rightarrow> string" where
  "toLowerCase s = map toLowerChar s"

text \<open>\<open>s.indexOf(sub) > -1\<close>.\<close>

fun isPrefixOf :: "string \<Rightarrow> string \<Rightarrow> bool" where
  "isPrefixOf [] s = True"
| "isPrefixOf (c # cs) [] = False"
| "isPrefixOf (c # cs) (d # ds) = (c = d \<and> isPrefixOf cs ds)"

fun contains :: "string \<Rightarrow> string \<Rightarrow> bool" where
  "contains [] sub = (sub = [])"
| "contains (c # cs) sub = (isPrefixOf sub (c # cs) \<or> contains cs sub)"

text \<open>\<open>isEndEventName\<close> of lib/parsing/endEvents.js.\<close>

definition isEndEventName :: "string \<Rightarrow> bool" where
  "isEndEventName localName = contains (toLowerCase localName) ''end''"

text \<open>
  \<open>BPMNProcessHistory.prototype.setEnd\<close>: the last entry of that name gets its end
  timestamp; \<open>None\<close> is the TypeError of \<open>historyEntry.setEnd()\<close> on \<open>null\<close>.
\<close>

definition setEnd :: "int \<Rightarrow> string \<Rightarrow> history \<Rightarrow> history option" where
  "setEnd ts flowObjectName h =
     (case getLastEntryIndex h flowObjectName of
        None \<Rightarrow> None
      | Some i \<Rightarrow>
          (let e = historyEntries h ! i;
               e' = HistoryEntry (entryName e) (entryType e) (entryBegin e) (Some ts) (subhistory e)
           in Some (History ((historyEntries h)[i := e']) (createdAt h)
                      (if isEndEventName (entryType e') then entryEnd e' else finishedAt h))))"

definition isFinished :: "history \<Rightarrow> bool" where
  "isFinished h =
     (if length (historyEntries h) \<noteq> 0 then isEndEventName (entryType (last (historyEntries h)))
      else False)"

text \<open>
  \<open>_hasBeenVisited\<close>: a first pass over the entries' names, then, if nothing was found,
  a pass over the sub-histories.
\<close>

primrec hasBeenVisited_entry :: "historyEntry \<Rightarrow> string \<Rightarrow> bool"
  and hasBeenVisited_entries :: "history \<Rightarrow> string \<Rightarrow> bool" where
  "hasBeenVisited_entry (HistoryEntry n ty b e sub) flowObjectName =
     (case map_option (\<lambda>h. hasBeenVisited_entries h flowObjectName) sub of
        None \<Rightarrow> False | Some found \<Rightarrow> found)"
| "hasBeenVisited_entries (History entries created finished) flowObjectName =
     (let found = list_ex (\<lambda>entry. entryName entry = flowObjectName) entries
      in if \<not> found
         then list_ex id (map (\<lambda>entry. hasBeenVisited_entry entry flowObjectName) entries)
         else found)"

definition hasBeenVisited :: "history \<Rightarrow> string \<Rightarrow> bool" where
  "hasBeenVisited h flowObjectName = hasBeenVisited_entries h flowObjectName"

section \<open>Process definitions (lib/parsing)\<close>

text \<open>
  The variants of a flow object, with the attributes the engine reads: a catch event
  knows whether it is a timer event, a boundary event also its \<open>attachedToRef\<close>.
  \<open>NoFlowObject\<close> is a process element without any of the \<open>isXxx\<close> flags and without
  \<open>emitTokens\<close>, which is what a sequence flow is when an id resolves to it.
\<close>

datatype kind =
    StartEvent | EndEvent | Task | CallActivity
  | IntermediateCatchEvent bool | IntermediateThrowEvent
  | BoundaryEvent string bool
  | ExclusiveGateway | ParallelGateway | NoFlowObject

record flowObject =
  bpmnId :: string
  foName :: string
  foType :: string
  foKind :: kind

record sequenceFlow =
  flowId :: string
  flowName :: string
  flowType :: string
  sourceRef :: string
  targetRef :: string

record processDefinition =
  pdName :: string
  flowObjects :: "flowObject list"
  sequenceFlows :: "sequenceFlow list"

definition isStartEvent :: "flowObject \<Rightarrow> bool" where
  "isStartEvent fo = (foKind fo = StartEvent)"

definition isEndEvent :: "flowObject \<Rightarrow> bool" where
  "isEndEvent fo = (foKind fo = EndEvent)"

definition isCallActivity :: "flowObject \<Rightarrow> bool" where
  "isCallActivity fo = (foKind fo = CallActivity)"

definition isActivity :: "flowObject \<Rightarrow> bool" where
  "isActivity fo = (foKind fo = Task \<or> foKind fo = CallActivity)"

text \<open>\<open>BPMNTask\<close> of lib/parsing/tasks.js computes \<open>isWaitTask\<close> from the type.\<close>

definition isWaitTask :: "flowObject \<Rightarrow> bool" where
  "isWaitTask fo =
     (foKind fo = Task \<and>
      (foType fo = ''task'' \<or> foType fo = ''userTask'' \<or> foType fo = ''receiveTask'' \<or>
       foType fo = ''manualTask''))"

definition isIntermediateCatchEvent :: "flowObject \<Rightarrow> bool" where
  "isIntermediateCatchEvent fo = (case foKind fo of IntermediateCatchEvent t \<Rightarrow> True | _ \<Rightarrow> False)"

definition isBoundaryEvent :: "flowObject \<Rightarrow> bool" where
  "isBoundaryEvent fo = (case foKind fo of BoundaryEvent r t \<Rightarrow> True | _ \<Rightarrow> False)"

definition isTimerEvent :: "flowObject \<Rightarrow> bool" where
  "isTimerEvent fo =
     (case foKind fo of IntermediateCatchEvent t \<Rightarrow> t | BoundaryEvent r t \<Rightarrow> t | _ \<Rightarrow> False)"

text \<open>
  \<open>attachedToRef\<close> as a key of the element index; a flow object without the attribute
  yields \<open>undefined\<close>, which an object index reads as the key \<open>"undefined"\<close>.
\<close>

definition attachedToRef :: "flowObject \<Rightarrow> string" where
  "attachedToRef fo = (case foKind fo of BoundaryEvent r t \<Rightarrow> r | _ \<Rightarrow> ''undefined'')"

definition asProcessElement :: "sequenceFlow \<Rightarrow> flowObject" where
  "asProcessElement sf =
     \<lparr>bpmnId = flowId sf, foName = flowName sf, foType = flowType sf, foKind = NoFlowObject\<rparr>"

definition getProcessElements :: "processDefinition \<Rightarrow> flowObject list" where
  "getProcessElements pd = flowObjects pd @ map asProcessElement (sequenceFlows pd)"

text \<open>\<open>_buildIndex\<close>: a later element overwrites an earlier one with the same id.\<close>

definition buildIndex :: "processDefinition \<Rightarrow> (string \<rightharpoonup> flowObject)" where
  "buildIndex pd =
     fold (\<lambda>processElement index. index(bpmnId processElement \<mapsto> processElement))
       (getProcessElements pd) Map.empty"

definition getProcessElement :: "processDefinition \<Rightarrow> string \<Rightarrow> flowObject option" where
  "getProcessElement pd elementId = buildIndex pd elementId"

definition getFlowObject :: "processDefinition \<Rightarrow> string \<Rightarrow> flowObject option" where
  "getFlowObject pd elementId = getProcessElement pd elementId"

text \<open>Errors the engine throws, by the place that throws them.\<close>

datatype error =
    NameNotUnique
  | BoundaryEventNotAtWaitTask
  | BoundaryEventWithoutActivity
  | AlreadyStarted
  | NoIntermediateCatchEvent
  | UnknownEvent
  | BadTimeout
  | TypeError
  | HandlerError

text \<open>
  \<open>buildNameMap\<close>: throws when the name is already mapped to a truthy (non-empty) id.
\<close>

fun buildNameMap_loop :: "flowObject list \<Rightarrow> (string \<rightharpoonup> string) \<Rightarrow> error + (string \<rightharpoonup> string)" where
  "buildNameMap_loop [] m = Inr m"
| "buildNameMap_loop (object # objects) m =
     (if (case m (foName object) of None \<Rightarrow> False | Some mapped \<Rightarrow> mapped \<noteq> [])
      then Inl NameNotUnique
      else buildNameMap_loop objects (m(foName object \<mapsto> bpmnId object)))"

definition buildNameMap :: "flowObject list \<Rightarrow> error + (string \<rightharpoonup> string)" where
  "buildNameMap objects = buildNameMap_loop objects Map.empty"

definition getIdByName :: "processDefinition \<Rightarrow> string \<Rightarrow> error + string option" where
  "getIdByName pd n =
     (case buildNameMap (flowObjects pd) of Inl e \<Rightarrow> Inl e | Inr nameMap \<Rightarrow> Inr (nameMap n))"

definition getFlowObjectByName :: "processDefinition \<Rightarrow> string \<Rightarrow> error + flowObject option" where
  "getFlowObjectByName pd n =
     (case getIdByName pd n of
        Inl e \<Rightarrow> Inl e
      | Inr None \<Rightarrow> Inr (getFlowObject pd ''undefined'')
      | Inr (Some elementId) \<Rightarrow> Inr (getFlowObject pd elementId))"

text \<open>\<open>buildFlowIndex\<close> and \<open>_getFlows\<close>.\<close>

definition buildFlowIndex :: "sequenceFlow list \<Rightarrow> bool \<Rightarrow> (string \<rightharpoonup> sequenceFlow list)" where
  "buildFlowIndex flows indexBySource =
     fold (\<lambda>flow index.
             (let ref = (if indexBySource then sourceRef flow else targetRef flow)
              in case index ref of
                   Some entry \<Rightarrow> index(ref \<mapsto> entry @ [flow])
                 | None \<Rightarrow> index(ref \<mapsto> [flow])))
       flows Map.empty"

definition getFlows :: "processDefinition \<Rightarrow> flowObject \<Rightarrow> bool \<Rightarrow> sequenceFlow list" where
  "getFlows pd fo isOutgoingFlow =
     (case buildFlowIndex (sequenceFlows pd) isOutgoingFlow (bpmnId fo) of
        Some flows \<Rightarrow> flows | None \<Rightarrow> [])"

definition getIncomingSequenceFlows :: "processDefinition \<Rightarrow> flowObject \<Rightarrow> sequenceFlow list" where
  "getIncomingSequenceFlows pd fo = getFlows pd fo False"

definition getOutgoingSequenceFlows :: "processDefinition \<Rightarrow> flowObject \<Rightarrow> sequenceFlow list" where
  "getOutgoingSequenceFlows pd fo = getFlows pd fo True"

definition getStartEvents :: "processDefinition \<Rightarrow> flowObject list" where
  "getStartEvents pd = filter isStartEvent (flowObjects pd)"

definition getBoundaryEvents :: "processDefinition \<Rightarrow> flowObject list" where
  "getBoundaryEvents pd = filter isBoundaryEvent (flowObjects pd)"

text \<open>
  \<open>buildBoundaryEventsByAttachmentIndex\<close>: throws for a boundary event whose activity
  is missing or is not a wait task.
\<close>

fun buildBoundaryEventsIndex_loop ::
  "processDefinition \<Rightarrow> flowObject list \<Rightarrow> (string \<rightharpoonup> flowObject list)
     \<Rightarrow> error + (string \<rightharpoonup> flowObject list)" where
  "buildBoundaryEventsIndex_loop pd [] index = Inr index"
| "buildBoundaryEventsIndex_loop pd (boundaryEvent # boundaryEvents) index =
     (case getFlowObject pd (attachedToRef boundaryEvent) of
        None \<Rightarrow> Inl BoundaryEventWithoutActivity
      | Some activity \<Rightarrow>
          if isWaitTask activity
          then buildBoundaryEventsIndex_loop pd boundaryEvents
                 (case index (attachedToRef boundaryEvent) of
                    Some entry \<Rightarrow> index(attachedToRef boundaryEvent \<mapsto> entry @ [boundaryEvent])
                  | None \<Rightarrow> index(attachedToRef boundaryEvent \<mapsto> [boundaryEvent]))
          else Inl BoundaryEventNotAtWaitTask)"

definition buildBoundaryEventsByAttachmentIndex ::
  "processDefinition \<Rightarrow> error + (string \<rightharpoonup> flowObject list)" where
  "buildBoundaryEventsByAttachmentIndex pd =
     buildBoundaryEventsIndex_loop pd (getBoundaryEvents pd) Map.empty"

definition getBoundaryEventsAt :: "processDefinition \<Rightarrow> flowObject \<Rightarrow> error + flowObject list" where
  "getBoundaryEventsAt pd activity =
     (case buildBoundaryEventsByAttachmentIndex pd of
        Inl e \<Rightarrow> Inl e
      | Inr index \<Rightarrow> Inr (case index (bpmnId activity) of Some events \<Rightarrow> events | None \<Rightarrow> []))"

section \<open>Handlers, instance state and runs (lib/handler.js, lib/process.js)\<close>

text \<open>
  A handler function is modelled by what it does with its arguments \<open>(data, done)\<close>
  before it returns: it calls \<open>done(d)\<close> once and returns \<open>r\<close>, or it returns \<open>r\<close> without
  having called \<open>done\<close>, or it throws before calling \<open>done\<close>. An entry of the handler
  module is such a function, an object (a hierarchical handler), or any other truthy
  value; a missing or falsy entry is \<open>None\<close>.
\<close>

datatype behaviour = CallsDone jsval jsval | Returns jsval | Raises

datatype handler = HFunction "jsval \<Rightarrow> behaviour" | HObject | HOther

text \<open>
  The environment of one synchronous run: the definition, the handler module, the
  hooks (\<open>onBeginHandler\<close> and \<open>onEndHandler\<close> are given by whether they call their
  \<open>done\<close>; the default event handler of the source calls \<open>done\<close>, its default error
  handler does not), whether a persistency layer is configured, and the reading of
  the clock, taken as constant during the run. No debugger interface and no
  transaction logger are attached; logging has no effect on the state.
\<close>

record env =
  processDefinition :: processDefinition
  eventHandler :: "string \<Rightarrow> handler option"
  onBeginHandler :: "(string \<Rightarrow> jsval \<Rightarrow> bool) option"
  onEndHandler :: "(string \<Rightarrow> jsval \<Rightarrow> bool) option"
  defaultEventHandlerCallsDone :: bool
  defaultErrorHandlerCallsDone :: bool
  persistency :: bool
  now :: int

datatype eventType =
  TOKEN_ARRIVED_EVENT | ACTIVITY_END_EVENT | INTERMEDIATE_CATCH_EVENT | BOUNDARY_CATCH_EVENT

datatype event = Event eventType string jsval

text \<open>
  A callback handed to \<open>process.nextTick\<close>: a direct \<open>emit\<close> of a deferred event, or the
  \<open>_emitEvent\<close> of \<open>triggerEvent\<close> for an intermediate catch event.
\<close>

datatype tick = TickEmit event | TickEmitEvent event

text \<open>\<open>Timeout\<close> of lib/timeouts.js.\<close>

record timeout =
  at :: int
  timeoutInMs :: jsval

text \<open>
  A callback handed to \<open>setTimeout\<close>: the one of \<open>addBoundaryTimerEvent\<close> or the one of
  \<open>addIntermediateTimerEvent\<close>, for a timer event, with its delay.
\<close>

datatype timerCallback = BoundaryTimerCallback | IntermediateTimerCallback

record scheduledTimer =
  callback :: timerCallback
  timerEvent :: flowObject
  delay :: int

text \<open>
  \<open>views\<close>: \<open>startEvent\<close> and \<open>endEvent\<close> refer to entries of the history, given by their
  index.
\<close>

record views =
  startEvent :: "nat option"
  endEvent :: "nat option"
  duration :: "int option"

text \<open>The document \<open>persist\<close> hands to the store (\<open>parentToken\<close> is \<open>null\<close> for a main process).\<close>

record document =
  docProcessName :: string
  docProcessId :: string
  docProperties :: "(string \<times> jsval) list"
  docState :: "token list"
  docHistory :: history
  docPendingTimeouts :: "(string \<times> timeout) list"
  docViews :: views

text \<open>
  The order of the effects of a run is recorded in a trace: tokens put by
  \<open>_putTokenAt\<close>, token arrivals taken up by the listener of \<open>TOKEN_ARRIVED_EVENT\<close>
  (the two places where the source writes its own log), history entries added and
  ended, handlers called, tokens emitted along a sequence flow, documents handed to
  the store.
\<close>

datatype action =
    TokenPut string
  | TokenArrived string
  | EntryAdded string
  | EndSet string
  | HandlerCalled string jsval
  | DefaultEventHandlerCalled string string string
  | DefaultErrorHandlerCalled
  | BeginHandlerCalled string
  | EndHandlerCalled string
  | TokenEmitted string string
  | PersistCalled

text \<open>
  A main process instance. Objects with string keys (\<open>properties\<close>, \<open>pendingTimeouts\<close>,
  \<open>setTimeoutIds\<close>) are association lists in insertion order with unique keys.
  \<open>nextTicks\<close> holds the callbacks given to \<open>process.nextTick\<close> that have not run yet,
  \<open>persisted\<close> the documents handed to \<open>persistency.persist\<close>, each with the
  \<open>closeConnection\<close> flag of the call.
\<close>

record process =
  processId :: string
  tokens :: "token list"
  history :: history
  properties :: "(string \<times> jsval) list"
  pendingTimeouts :: "(string \<times> timeout) list"
  setTimeoutIds :: "(string \<times> scheduledTimer) list"
  views :: views
  deferEvents :: bool
  deferredEvents :: "event list"
  nextTicks :: "tick list"
  persisted :: "(document \<times> bool) list"
  trace :: "action list"

text \<open>
  How a run ends: it returns, it throws, it runs out of fuel, or it leaves the model
  (the engine starts or continues a called process, whose definition and handlers are
  loaded from files). The state reached is kept in every case.
\<close>

datatype outcome = Normal | Thrown error | Exhausted | NotModelled

type_synonym result = "outcome \<times> process"

type_synonym putter = "flowObject \<Rightarrow> jsval \<Rightarrow> process \<Rightarrow> result"

definition log :: "action \<Rightarrow> process \<Rightarrow> process" where
  "log a p = p\<lparr>trace := trace p @ [a]\<rparr>"

text \<open>Sequencing: the second step runs if the first returned.\<close>

definition andThen :: "result \<Rightarrow> (process \<Rightarrow> result) \<Rightarrow> result" where
  "andThen r f = (case r of (Normal, p) \<Rightarrow> f p | (other, p) \<Rightarrow> (other, p))"

text \<open>\<open>Array.prototype.forEach\<close> with a callback that may throw.\<close>

fun forEach :: "'a list \<Rightarrow> ('a \<Rightarrow> process \<Rightarrow> result) \<Rightarrow> process \<Rightarrow> result" where
  "forEach [] f p = (Normal, p)"
| "forEach (x # xs) f p = andThen (f x p) (forEach xs f)"

definition noop :: "jsval \<Rightarrow> process \<Rightarrow> result" where
  "noop d p = (Normal, p)"

text \<open>Reading, setting and deleting a property of an object.\<close>

definition objGet :: "(string \<times> 'a) list \<Rightarrow> string \<Rightarrow> 'a option" where
  "objGet obj k = map_of obj k"

definition objSet :: "string \<Rightarrow> 'a \<Rightarrow> (string \<times> 'a) list \<Rightarrow> (string \<times> 'a) list" where
  "objSet k v obj =
     (if k \<in> set (map fst obj) then map (\<lambda>(k', v'). if k' = k then (k', v) else (k', v')) obj
      else obj @ [(k, v)])"

definition objDelete :: "string \<Rightarrow> (string \<times> 'a) list \<Rightarrow> (string \<times> 'a) list" where
  "objDelete k obj = filter (\<lambda>(k', v'). k' \<noteq> k) obj"

subsection \<open>lib/handler.js\<close>

definition handlerNameSeparator :: string where
  "handlerNameSeparator = ''$''"

definition getHandlerFromProcess :: "string \<Rightarrow> env \<Rightarrow> handler option" where
  "getHandlerFromProcess n env = eventHandler env (mapName2HandlerName n)"

text \<open>
  \<open>callDefaultEventHandler\<close>: the default event handler gets \<open>done\<close> as its last
  argument.
\<close>

definition callDefaultEventHandler ::
  "env \<Rightarrow> string \<Rightarrow> string \<Rightarrow> string \<Rightarrow> (jsval \<Rightarrow> process \<Rightarrow> result) \<Rightarrow> process \<Rightarrow> result" where
  "callDefaultEventHandler env evType currentFlowObjectName handlerName done p =
     (let p1 = log (DefaultEventHandlerCalled evType currentFlowObjectName handlerName) p
      in if defaultEventHandlerCallsDone env then done Undefined p1 else (Normal, p1))"

definition callDefaultErrorHandler ::
  "env \<Rightarrow> (jsval \<Rightarrow> process \<Rightarrow> result) \<Rightarrow> process \<Rightarrow> result" where
  "callDefaultErrorHandler env done p =
     (let p1 = log DefaultErrorHandlerCalled p
      in if defaultErrorHandlerCallsDone env then done Undefined p1 else (Normal, p1))"

text \<open>
  \<open>callHandler(name, process, data, handlerDoneCallback)\<close> returns the handler's result.
  A handler function runs inside \<open>try\<close>: what it throws, and what \<open>done\<close> throws while
  the handler calls it, goes to the default error handler.
\<close>

definition callHandler ::
  "env \<Rightarrow> string \<Rightarrow> jsval \<Rightarrow> (jsval \<Rightarrow> process \<Rightarrow> result) \<Rightarrow> process \<Rightarrow> jsval \<times> result" where
  "callHandler env n data done p =
     (case getHandlerFromProcess n env of
        Some (HFunction f) \<Rightarrow>
          (let p1 = log (HandlerCalled (mapName2HandlerName n) data) p
           in case f data of
                CallsDone d r \<Rightarrow>
                  (case done d p1 of
                     (Normal, p2) \<Rightarrow> (r, (Normal, p2))
                   | (Thrown e, p2) \<Rightarrow> (Undefined, callDefaultErrorHandler env done p2)
                   | (other, p2) \<Rightarrow> (Undefined, (other, p2)))
              | Returns r \<Rightarrow> (r, (Normal, p1))
              | Raises \<Rightarrow> (Undefined, callDefaultErrorHandler env done p1))
      | Some HObject \<Rightarrow> (Undefined, done Undefined p)
      | Some HOther \<Rightarrow>
          (Undefined,
           callDefaultEventHandler env ''callHandler'' n (mapName2HandlerName n) done p)
      | None \<Rightarrow>
          (Undefined,
           callDefaultEventHandler env ''callHandler'' n (mapName2HandlerName n) done p))"

subsection \<open>lib/process.js: persisting, history hooks\<close>

definition persistentData :: "env \<Rightarrow> process \<Rightarrow> document" where
  "persistentData env p =
     \<lparr>docProcessName = pdName (processDefinition env), docProcessId = processId p,
      docProperties = properties p, docState = tokens p, docHistory = history p,
      docPendingTimeouts = pendingTimeouts p, docViews = views p\<rparr>"

text \<open>
  \<open>persist(closeConnection)\<close>: with a persistency layer, events are deferred from now on
  and the document is handed to the store; \<open>doneSaving\<close> runs when the store answers.
\<close>

definition persist :: "env \<Rightarrow> bool \<Rightarrow> process \<Rightarrow> process" where
  "persist env closeConnection p =
     (if persistency env
      then log PersistCalled
             (p\<lparr>deferEvents := True,
                persisted := persisted p @ [(persistentData env p, closeConnection)]\<rparr>)
      else p)"

definition onFlowObjectBegin ::
  "env \<Rightarrow> flowObject \<Rightarrow> jsval \<Rightarrow> (process \<Rightarrow> result) \<Rightarrow> process \<Rightarrow> result" where
  "onFlowObjectBegin env currentFlowObject data done p =
     (let p1 = log (EntryAdded (foName currentFlowObject))
                 (p\<lparr>history := addEntry (now env) (foName currentFlowObject)
                                  (foType currentFlowObject) (history p)\<rparr>);
          p2 = (if isStartEvent currentFlowObject
                then p1\<lparr>views := (views p1)\<lparr>startEvent := Some 0\<rparr>\<rparr> else p1)
      in case onBeginHandler env of
           Some h \<Rightarrow>
             (let p3 = log (BeginHandlerCalled (foName currentFlowObject)) p2
              in if h (foName currentFlowObject) data then done p3 else (Normal, p3))
         | None \<Rightarrow> done p2)"

text \<open>
  \<open>onFlowObjectEnd(name, data, done)\<close>; \<open>finished\<close> sets the end of the history entry and
  then calls \<open>done\<close>.
\<close>

definition onFlowObjectEnd_finished ::
  "env \<Rightarrow> string \<Rightarrow> (process \<Rightarrow> result) \<Rightarrow> process \<Rightarrow> result" where
  "onFlowObjectEnd_finished env currentFlowObjectName done p =
     (case setEnd (now env) currentFlowObjectName (history p) of
        None \<Rightarrow> (Thrown TypeError, p)
      | Some h \<Rightarrow>
          (let p1 = log (EndSet currentFlowObjectName) (p\<lparr>history := h\<rparr>);
               p2 = (if isFinished h
                     then p1\<lparr>views := (views p1)\<lparr>duration :=
                            Some ((case finishedAt h of None \<Rightarrow> 0 | Some f \<Rightarrow> f) - createdAt h)\<rparr>\<rparr>
                     else p1)
           in done p2))"

definition onFlowObjectEnd ::
  "env \<Rightarrow> string \<Rightarrow> jsval \<Rightarrow> (process \<Rightarrow> result) \<Rightarrow> process \<Rightarrow> result" where
  "onFlowObjectEnd env currentFlowObjectName data done p =
     (case onEndHandler env of
        Some h \<Rightarrow>
          (let p1 = log (EndHandlerCalled currentFlowObjectName) p
           in if h currentFlowObjectName data
              then onFlowObjectEnd_finished env currentFlowObjectName done p1
              else (Normal, p1))
      | None \<Rightarrow> onFlowObjectEnd_finished env currentFlowObjectName done p)"

text \<open>
  \<open>onProcessEnd(endEventName, true)\<close> of the main process: the end event is recorded in
  the views and the final document is persisted with \<open>closeConnection\<close>.
\<close>

definition onProcessEnd :: "env \<Rightarrow> string \<Rightarrow> process \<Rightarrow> result" where
  "onProcessEnd env endEventName p =
     (Normal,
      persist env True
        (p\<lparr>views := (views p)\<lparr>endEvent := getLastEntryIndex (history p) endEventName\<rparr>\<rparr>))"

subsection \<open>Emitting tokens (lib/parsing/flowObject.js, gateways.js, endEvents.js, callActivity.js)\<close>

text \<open>
  \<open>emitTokenAlong\<close> resolves the target of the flow and calls \<open>_putTokenAt\<close>, which is
  the parameter \<open>put\<close> of every function from here on.
\<close>

definition emitTokenAlong ::
  "putter \<Rightarrow> env \<Rightarrow> flowObject \<Rightarrow> sequenceFlow \<Rightarrow> jsval \<Rightarrow> process \<Rightarrow> result" where
  "emitTokenAlong put env currentFlowObject outgoingSequenceFlow data p =
     (case getProcessElement (processDefinition env) (targetRef outgoingSequenceFlow) of
        None \<Rightarrow> (Thrown TypeError, p)
      | Some nextFlowObject \<Rightarrow>
          put nextFlowObject data
            (log (TokenEmitted (foName currentFlowObject) (flowName outgoingSequenceFlow)) p))"

text \<open>\<open>BPMNFlowObject.prototype.emitTokens\<close>: along all outgoing flows.\<close>

definition flowObject_emitTokens :: "putter \<Rightarrow> env \<Rightarrow> flowObject \<Rightarrow> jsval \<Rightarrow> process \<Rightarrow> result" where
  "flowObject_emitTokens put env self data p =
     onFlowObjectEnd env (foName self) data
       (forEach (getOutgoingSequenceFlows (processDefinition env) self)
          (\<lambda>outgoingSequenceFlow. emitTokenAlong put env self outgoingSequenceFlow data))
       p"

text \<open>
  \<open>BPMNExclusiveGateway.prototype.emitTokens\<close>: the body of the \<open>forEach\<close> with the flag
  \<open>emittedToken\<close>.
\<close>

fun exclusiveGateway_iter ::
  "putter \<Rightarrow> env \<Rightarrow> flowObject \<Rightarrow> bool \<Rightarrow> jsval \<Rightarrow> sequenceFlow list \<Rightarrow> bool \<Rightarrow> process \<Rightarrow> result" where
  "exclusiveGateway_iter put env self isDiverging data [] emittedToken p = (Normal, p)"
| "exclusiveGateway_iter put env self isDiverging data (outgoingSequenceFlow # rest) emittedToken p =
     (if emittedToken
      then exclusiveGateway_iter put env self isDiverging data rest emittedToken p
      else if isDiverging
      then (case callHandler env
                   (foName self @ handlerNameSeparator @ flowName outgoingSequenceFlow) data noop p of
              (r, (Normal, p1)) \<Rightarrow>
                if truthy r
                then andThen (emitTokenAlong put env self outgoingSequenceFlow data p1)
                       (exclusiveGateway_iter put env self isDiverging data rest True)
                else exclusiveGateway_iter put env self isDiverging data rest emittedToken p1
            | (r, (other, p1)) \<Rightarrow> (other, p1))
      else andThen (emitTokenAlong put env self outgoingSequenceFlow data p)
             (exclusiveGateway_iter put env self isDiverging data rest True))"

definition exclusiveGateway_emitTokens ::
  "putter \<Rightarrow> env \<Rightarrow> flowObject \<Rightarrow> jsval \<Rightarrow> process \<Rightarrow> result" where
  "exclusiveGateway_emitTokens put env self data p =
     (let outgoingSequenceFlows = getOutgoingSequenceFlows (processDefinition env) self;
          isDiverging = (length outgoingSequenceFlows > 1)
      in onFlowObjectEnd env (foName self) data
           (exclusiveGateway_iter put env self isDiverging data outgoingSequenceFlows False) p)"

text \<open>\<open>BPMNParallelGateway.prototype.emitTokens\<close>.\<close>

definition parallelGateway_emitTokens ::
  "putter \<Rightarrow> env \<Rightarrow> flowObject \<Rightarrow> jsval \<Rightarrow> process \<Rightarrow> result" where
  "parallelGateway_emitTokens put env self data p =
     (let numberOfIncomingFlows = length (getIncomingSequenceFlows (processDefinition env) self);
          p1 = p\<lparr>tokens := snd (createTokenAt (foName self) (processId p) [] (tokens p))\<rparr>;
          numberOfTokens = numberOfTokensAt (foName self) (tokens p1)
      in if numberOfTokens = numberOfIncomingFlows
         then onFlowObjectEnd env (foName self) data
                (\<lambda>p2. forEach (getOutgoingSequenceFlows (processDefinition env) self)
                         (\<lambda>outgoingSequenceFlow. emitTokenAlong put env self outgoingSequenceFlow data)
                         (p2\<lparr>tokens := removeAllTokensAt (foName self) (tokens p2)\<rparr>))
                p1
         else (Normal, persist env False p1))"

text \<open>\<open>BPMNEndEvent.prototype.emitTokens\<close> in a process without parent.\<close>

definition endEvent_emitTokens :: "env \<Rightarrow> flowObject \<Rightarrow> jsval \<Rightarrow> process \<Rightarrow> result" where
  "endEvent_emitTokens env self data p =
     onFlowObjectEnd env (foName self) data (onProcessEnd env (foName self)) p"

text \<open>
  \<open>BPMNCallActivity.prototype.emitTokens\<close>: on return, the default behaviour; on entry
  the call activity token is created and the called process is built from its files,
  where the model ends.
\<close>

definition callActivity_emitTokens ::
  "putter \<Rightarrow> env \<Rightarrow> flowObject \<Rightarrow> jsval \<Rightarrow> bool \<Rightarrow> process \<Rightarrow> result" where
  "callActivity_emitTokens put env self data returningFromCalledProcess p =
     (let calledProcessId = processId p @ ''::'' @ foName self
      in if returningFromCalledProcess
         then flowObject_emitTokens put env self data p
         else (NotModelled,
               p\<lparr>tokens := snd (createTokenAt (foName self) (processId p) calledProcessId (tokens p))\<rparr>))"

text \<open>
  The method \<open>emitTokens\<close> of a flow object, by variant. Start, catch, throw and boundary
  events and tasks inherit it from \<open>BPMNFlowObject\<close>; a process element that is not a
  flow object has no such method.
\<close>

definition emitTokens ::
  "putter \<Rightarrow> env \<Rightarrow> flowObject \<Rightarrow> jsval \<Rightarrow> bool \<Rightarrow> process \<Rightarrow> result" where
  "emitTokens put env fo data returningFromCalledProcess p =
     (case foKind fo of
        ExclusiveGateway \<Rightarrow> exclusiveGateway_emitTokens put env fo data p
      | ParallelGateway \<Rightarrow> parallelGateway_emitTokens put env fo data p
      | EndEvent \<Rightarrow> endEvent_emitTokens env fo data p
      | CallActivity \<Rightarrow> callActivity_emitTokens put env fo data returningFromCalledProcess p
      | NoFlowObject \<Rightarrow> (Thrown TypeError, p)
      | _ \<Rightarrow> flowObject_emitTokens put env fo data p)"

subsection \<open>Timers (lib/timeouts.js)\<close>

definition removeTimeout :: "string \<Rightarrow> process \<Rightarrow> process" where
  "removeTimeout timerEventName p =
     p\<lparr>pendingTimeouts := objDelete timerEventName (pendingTimeouts p),
       setTimeoutIds := objDelete timerEventName (setTimeoutIds p)\<rparr>"

text \<open>The callbacks \<open>addBoundaryTimerEvent\<close> and \<open>addIntermediateTimerEvent\<close> register.\<close>

definition boundaryTimerEventHandler :: "putter \<Rightarrow> env \<Rightarrow> flowObject \<Rightarrow> process \<Rightarrow> result" where
  "boundaryTimerEventHandler put env timerEv p =
     put timerEv Undefined (removeTimeout (foName timerEv) p)"

definition intermediateTimerEventHandler :: "putter \<Rightarrow> env \<Rightarrow> flowObject \<Rightarrow> process \<Rightarrow> result" where
  "intermediateTimerEventHandler put env timerEv p =
     (let p1 = p\<lparr>tokens := removeTokenAt (foName timerEv) (tokens p)\<rparr>;
          p2 = removeTimeout (foName timerEv) p1
      in snd (callHandler env (foName timerEv) Null
                (\<lambda>d. emitTokens put env timerEv Undefined False) p2))"

definition timeoutEventHandler ::
  "putter \<Rightarrow> env \<Rightarrow> timerCallback \<Rightarrow> flowObject \<Rightarrow> process \<Rightarrow> result" where
  "timeoutEventHandler put env cb timerEv p =
     (case cb of
        BoundaryTimerCallback \<Rightarrow> boundaryTimerEventHandler put env timerEv p
      | IntermediateTimerCallback \<Rightarrow> intermediateTimerEventHandler put env timerEv p)"

text \<open>
  \<open>addTimerEvent(timerEventName, pendingTimeout, timeoutEventHandler)\<close>; a timeout that
  is not given is created by \<open>new Timeout(timeoutInMs, true)\<close>.
\<close>

definition addTimerEvent ::
  "putter \<Rightarrow> env \<Rightarrow> timerCallback \<Rightarrow> flowObject \<Rightarrow> timeout option \<Rightarrow> process \<Rightarrow> result" where
  "addTimerEvent put env cb timerEv pendingTimeout p =
     (let timerEventName = foName timerEv;
          getTimeoutHandlerName = timerEventName @ handlerNameSeparator @ ''getTimeout''
      in case callHandler env getTimeoutHandlerName Undefined noop p of
           (ms, (Normal, p1)) \<Rightarrow>
             if isNaN ms then (Thrown BadTimeout, p1)
             else (let tmo = (case pendingTimeout of
                                Some given \<Rightarrow> given
                              | None \<Rightarrow> \<lparr>at = now env + toNumber ms, timeoutInMs = ms\<rparr>);
                       p2 = p1\<lparr>pendingTimeouts := objSet timerEventName tmo (pendingTimeouts p1)\<rparr>;
                       diff = at tmo - now env
                   in if diff > 0
                      then (Normal,
                            p2\<lparr>setTimeoutIds :=
                                 objSet timerEventName
                                   \<lparr>callback = cb, timerEvent = timerEv, delay = diff\<rparr>
                                   (setTimeoutIds p2)\<rparr>)
                      else timeoutEventHandler put env cb timerEv p2)
         | (ms, (other, p1)) \<Rightarrow> (other, p1))"

definition addBoundaryTimerEvent ::
  "putter \<Rightarrow> env \<Rightarrow> flowObject \<Rightarrow> timeout option \<Rightarrow> process \<Rightarrow> result" where
  "addBoundaryTimerEvent put env timerEv pendingTimeout p =
     addTimerEvent put env BoundaryTimerCallback timerEv pendingTimeout p"

definition addIntermediateTimerEvent ::
  "putter \<Rightarrow> env \<Rightarrow> flowObject \<Rightarrow> timeout option \<Rightarrow> process \<Rightarrow> result" where
  "addIntermediateTimerEvent put env timerEv pendingTimeout p =
     addTimerEvent put env IntermediateTimerCallback timerEv pendingTimeout p"

definition restoreTimerEvents ::
  "putter \<Rightarrow> env \<Rightarrow> (string \<times> timeout) list \<Rightarrow> process \<Rightarrow> result" where
  "restoreTimerEvents put env loadedTimeouts p =
     forEach (map fst loadedTimeouts)
       (\<lambda>timerEventName p'.
          case getFlowObjectByName (processDefinition env) timerEventName of
            Inl e \<Rightarrow> (Thrown e, p')
          | Inr None \<Rightarrow> (Thrown TypeError, p')
          | Inr (Some timerEv) \<Rightarrow>
              if isIntermediateCatchEvent timerEv
              then addIntermediateTimerEvent put env timerEv (objGet loadedTimeouts timerEventName) p'
              else addBoundaryTimerEvent put env timerEv (objGet loadedTimeouts timerEventName) p')
       p"

subsection \<open>lib/process.js: moving tokens\<close>

definition registerBoundaryTimerEvents :: "putter \<Rightarrow> env \<Rightarrow> flowObject \<Rightarrow> process \<Rightarrow> result" where
  "registerBoundaryTimerEvents put env currentActivity p =
     (case getBoundaryEventsAt (processDefinition env) currentActivity of
        Inl e \<Rightarrow> (Thrown e, p)
      | Inr boundaryEvents \<Rightarrow>
          forEach boundaryEvents
            (\<lambda>boundaryEvent p'.
               if isTimerEvent boundaryEvent then addBoundaryTimerEvent put env boundaryEvent None p'
               else (Normal, p'))
            p)"

definition registerIntermediateTimerEvents :: "putter \<Rightarrow> env \<Rightarrow> flowObject \<Rightarrow> process \<Rightarrow> result" where
  "registerIntermediateTimerEvents put env timerEv p = addIntermediateTimerEvent put env timerEv None p"

definition clearBoundaryTimerEvents :: "env \<Rightarrow> flowObject \<Rightarrow> process \<Rightarrow> result" where
  "clearBoundaryTimerEvents env currentFlowObject p =
     (case getBoundaryEventsAt (processDefinition env) currentFlowObject of
        Inl e \<Rightarrow> (Thrown e, p)
      | Inr boundaryEvents \<Rightarrow>
          forEach boundaryEvents
            (\<lambda>boundaryEvent p'.
               if isTimerEvent boundaryEvent then (Normal, removeTimeout (foName boundaryEvent) p')
               else (Normal, p'))
            p)"

text \<open>
  \<open>_emitTokens(currentFlowObject, data, returningFromCalledProcess)\<close>. For a boundary event
  whose activity does not resolve, \<open>_clearBoundaryTimerEvents(undefined)\<close> throws.
\<close>

definition emitTokens_of ::
  "putter \<Rightarrow> env \<Rightarrow> flowObject \<Rightarrow> jsval \<Rightarrow> bool \<Rightarrow> process \<Rightarrow> result" where
  "emitTokens_of put env currentFlowObject data returningFromCalledProcess p =
     (let p1 = p\<lparr>tokens := removeTokenAt (foName currentFlowObject) (tokens p)\<rparr>;
          cleared =
            (if isBoundaryEvent currentFlowObject
             then (case getFlowObject (processDefinition env) (attachedToRef currentFlowObject) of
                     None \<Rightarrow>
                       (case getBoundaryEventsAt (processDefinition env) currentFlowObject of
                          Inl e \<Rightarrow> (Thrown e, p1)
                        | Inr boundaryEvents \<Rightarrow> (Thrown TypeError, p1))
                   | Some activity \<Rightarrow>
                       andThen (clearBoundaryTimerEvents env activity p1)
                         (\<lambda>p2. onFlowObjectEnd env (foName activity) Undefined (\<lambda>p4. (Normal, p4))
                                  (p2\<lparr>tokens := removeTokenAt (foName activity) (tokens p2)\<rparr>)))
             else clearBoundaryTimerEvents env currentFlowObject p1)
      in andThen cleared (emitTokens put env currentFlowObject data returningFromCalledProcess))"

text \<open>The listener of \<open>TOKEN_ARRIVED_EVENT\<close> and its callback \<open>handlerDone\<close>.\<close>

definition tokenArrived_handlerDone ::
  "putter \<Rightarrow> env \<Rightarrow> flowObject \<Rightarrow> jsval \<Rightarrow> process \<Rightarrow> result" where
  "tokenArrived_handlerDone put env currentFlowObject data p =
     (if isWaitTask currentFlowObject
      then andThen (registerBoundaryTimerEvents put env currentFlowObject p)
             (\<lambda>p1. (Normal, persist env False p1))
      else if isCallActivity currentFlowObject
      then andThen (registerBoundaryTimerEvents put env currentFlowObject p)
             (emitTokens_of put env currentFlowObject data False)
      else emitTokens_of put env currentFlowObject data False p)"

definition onTokenArrivedEventHandler :: "putter \<Rightarrow> env \<Rightarrow> string \<Rightarrow> jsval \<Rightarrow> process \<Rightarrow> result" where
  "onTokenArrivedEventHandler put env currentFlowObjectName eventData p =
     (case getFlowObjectByName (processDefinition env) currentFlowObjectName of
        Inl e \<Rightarrow> (Thrown e, p)
      | Inr None \<Rightarrow> (Thrown TypeError, p)
      | Inr (Some currentFlowObject) \<Rightarrow>
          (let p0 = log (TokenArrived currentFlowObjectName) p
           in if isIntermediateCatchEvent currentFlowObject
              then andThen
                     (if isTimerEvent currentFlowObject
                      then registerIntermediateTimerEvents put env currentFlowObject p0
                      else (Normal, p0))
                     (\<lambda>p1. (Normal, persist env False p1))
              else snd (callHandler env currentFlowObjectName eventData
                          (tokenArrived_handlerDone put env currentFlowObject) p0)))"

definition activityEndHandlerPostfix :: string where
  "activityEndHandlerPostfix = ''Done''"

text \<open>
  The listener of \<open>ACTIVITY_END_EVENT\<close>. The first token found may belong to a called
  process, which then handles the event; that leaves the model.
\<close>

definition activityEndHandler :: "putter \<Rightarrow> env \<Rightarrow> string \<Rightarrow> jsval \<Rightarrow> process \<Rightarrow> result" where
  "activityEndHandler put env activityName activityEventData p =
     (let handlerName = mapName2HandlerName activityName @ activityEndHandlerPostfix
      in if hasTokens (tokens p) activityName
         then (case getFirstToken (tokens p) activityName of
                 None \<Rightarrow> (Thrown TypeError, p)
               | Some currentToken \<Rightarrow>
                   if owningProcessId currentToken \<noteq> processId p then (NotModelled, p)
                   else (case getFlowObjectByName (processDefinition env) (position currentToken) of
                           Inl e \<Rightarrow> (Thrown e, p)
                         | Inr currentFlowObject \<Rightarrow>
                             snd (callHandler env handlerName activityEventData
                                    (\<lambda>data p1.
                                       case currentFlowObject of
                                         None \<Rightarrow> (Thrown TypeError, p1)
                                       | Some fo \<Rightarrow> emitTokens_of put env fo data True p1)
                                    p)))
         else callDefaultEventHandler env ''ACTIVITY_END_EVENT'' activityName handlerName noop p)"

text \<open>The listener of \<open>INTERMEDIATE_CATCH_EVENT\<close>.\<close>

definition intermediateCatchHandler :: "putter \<Rightarrow> env \<Rightarrow> string \<Rightarrow> jsval \<Rightarrow> process \<Rightarrow> result" where
  "intermediateCatchHandler put env eventName eventData p =
     (let handlerName = mapName2HandlerName eventName
      in if hasTokens (tokens p) eventName
         then (case getFlowObjectByName (processDefinition env) eventName of
                 Inl e \<Rightarrow> (Thrown e, p)
               | Inr catchIntermediateEventObject \<Rightarrow>
                   snd (callHandler env handlerName eventData
                          (\<lambda>data p1.
                             case catchIntermediateEventObject of
                               None \<Rightarrow> (Thrown TypeError, p1)
                             | Some fo \<Rightarrow> emitTokens_of put env fo data True p1)
                          p))
         else callDefaultEventHandler env ''INTERMEDIATE_CATCH_EVENT'' eventName handlerName noop p)"

text \<open>The listener of \<open>BOUNDARY_CATCH_EVENT\<close>.\<close>

definition boundaryCatchHandler :: "putter \<Rightarrow> env \<Rightarrow> string \<Rightarrow> jsval \<Rightarrow> process \<Rightarrow> result" where
  "boundaryCatchHandler put env eventName eventData p =
     (let handlerName = mapName2HandlerName eventName
      in case getFlowObjectByName (processDefinition env) eventName of
           Inl e \<Rightarrow> (Thrown e, p)
         | Inr None \<Rightarrow> (Thrown TypeError, p)
         | Inr (Some catchBoundaryEventObject) \<Rightarrow>
             (case getFlowObject (processDefinition env) (attachedToRef catchBoundaryEventObject) of
                None \<Rightarrow> (Thrown TypeError, p)
              | Some activity \<Rightarrow>
                  if hasTokens (tokens p) (foName activity)
                  then put catchBoundaryEventObject eventData
                         (p\<lparr>tokens := removeTokenAt (foName activity) (tokens p)\<rparr>)
                  else callDefaultEventHandler env ''BOUNDARY_CATCH_EVENT'' eventName handlerName
                         noop p))"

text \<open>\<open>emit\<close>: the listener registered for the event type runs at once.\<close>

fun emit :: "putter \<Rightarrow> env \<Rightarrow> event \<Rightarrow> process \<Rightarrow> result" where
  "emit put env (Event TOKEN_ARRIVED_EVENT n data) p = onTokenArrivedEventHandler put env n data p"
| "emit put env (Event ACTIVITY_END_EVENT n data) p = activityEndHandler put env n data p"
| "emit put env (Event INTERMEDIATE_CATCH_EVENT n data) p = intermediateCatchHandler put env n data p"
| "emit put env (Event BOUNDARY_CATCH_EVENT n data) p = boundaryCatchHandler put env n data p"

text \<open>\<open>_emitEvent\<close>: \<open>data || {}\<close>, then deferred or emitted.\<close>

definition emitEvent :: "putter \<Rightarrow> env \<Rightarrow> eventType \<Rightarrow> string \<Rightarrow> jsval \<Rightarrow> process \<Rightarrow> result" where
  "emitEvent put env evType eventName data p =
     (let data' = (if truthy data then data else JObj [])
      in if deferEvents p
         then (Normal, p\<lparr>deferredEvents := deferredEvents p @ [Event evType eventName data']\<rparr>)
         else emit put env (Event evType eventName data') p)"

text \<open>
  \<open>_putTokenAt(currentFlowObject, data)\<close>, with the recursive calls made through \<open>put\<close>.
\<close>

definition putTokenAt_body :: "putter \<Rightarrow> env \<Rightarrow> flowObject \<Rightarrow> jsval \<Rightarrow> process \<Rightarrow> result" where
  "putTokenAt_body put env currentFlowObject data p =
     (let p1 = log (TokenPut (foName currentFlowObject))
                 (p\<lparr>tokens := snd (createTokenAt (foName currentFlowObject) (processId p) []
                                      (tokens p))\<rparr>)
      in onFlowObjectBegin env currentFlowObject data
           (emitEvent put env TOKEN_ARRIVED_EVENT (foName currentFlowObject) data) p1)"

text \<open>
  \<open>_putTokenAt\<close> itself. A token that arrives is handled at once, and handling it may put
  further tokens; in a definition with a cycle this need not end, so the depth of the
  calls is bounded by \<open>fuel\<close>.
\<close>

fun putTokenAt :: "nat \<Rightarrow> env \<Rightarrow> flowObject \<Rightarrow> jsval \<Rightarrow> process \<Rightarrow> result" where
  "putTokenAt 0 env currentFlowObject data p = (Exhausted, p)"
| "putTokenAt (Suc fuel) env currentFlowObject data p =
     putTokenAt_body (putTokenAt fuel env) env currentFlowObject data p"

text \<open>\<open>_s.endsWith\<close> and \<open>_s.strLeft\<close> of underscore.string.\<close>

definition endsWith :: "string \<Rightarrow> string \<Rightarrow> bool" where
  "endsWith s ends = isPrefixOf (rev ends) (rev s)"

fun strLeft :: "string \<Rightarrow> string \<Rightarrow> string" where
  "strLeft [] sep = []"
| "strLeft (c # cs) sep =
     (if sep \<noteq> [] \<and> isPrefixOf sep (c # cs) then [] else c # strLeft cs sep)"

definition taskDone :: "putter \<Rightarrow> env \<Rightarrow> string \<Rightarrow> jsval \<Rightarrow> process \<Rightarrow> result" where
  "taskDone put env taskName data p = emitEvent put env ACTIVITY_END_EVENT taskName data p"

text \<open>
  \<open>triggerEvent(eventName, data)\<close>. The \<open>_emitEvent\<close> for an intermediate catch event is
  handed to \<open>process.nextTick\<close>.
\<close>

definition triggerEvent_with :: "putter \<Rightarrow> env \<Rightarrow> string \<Rightarrow> jsval \<Rightarrow> process \<Rightarrow> result" where
  "triggerEvent_with put env eventName data p =
     (case getFlowObjectByName (processDefinition env) eventName of
        Inl e \<Rightarrow> (Thrown e, p)
      | Inr (Some flowObject) \<Rightarrow>
          if isStartEvent flowObject
          then (if hasBeenVisited (history p) eventName then (Thrown AlreadyStarted, p)
                else put flowObject data p)
          else if isIntermediateCatchEvent flowObject
          then (Normal,
                p\<lparr>nextTicks := nextTicks p @
                     [TickEmitEvent (Event INTERMEDIATE_CATCH_EVENT eventName data)]\<rparr>)
          else if isBoundaryEvent flowObject
          then emitEvent put env BOUNDARY_CATCH_EVENT eventName data p
          else (Thrown NoIntermediateCatchEvent, p)
      | Inr None \<Rightarrow>
          if endsWith eventName activityEndHandlerPostfix
          then (let flowObjectName = strLeft eventName activityEndHandlerPostfix
                in case getFlowObjectByName (processDefinition env) flowObjectName of
                     Inl e \<Rightarrow> (Thrown e, p)
                   | Inr (Some flowObject) \<Rightarrow>
                       if isWaitTask flowObject then taskDone put env flowObjectName data p
                       else (Thrown UnknownEvent, p)
                   | Inr None \<Rightarrow> (Thrown UnknownEvent, p))
          else (Thrown UnknownEvent, p))"

definition triggerEvent :: "nat \<Rightarrow> env \<Rightarrow> string \<Rightarrow> jsval \<Rightarrow> process \<Rightarrow> result" where
  "triggerEvent fuel env eventName data p = triggerEvent_with (putTokenAt fuel env) env eventName data p"

text \<open>
  What the event loop runs later: the callback of a timer, the next callback given to
  \<open>process.nextTick\<close>, and \<open>doneSaving\<close> when the store has saved (\<open>_emitDeferredEvents\<close>).
\<close>

definition timerFires :: "nat \<Rightarrow> env \<Rightarrow> string \<Rightarrow> process \<Rightarrow> result" where
  "timerFires fuel env timerEventName p =
     (case objGet (setTimeoutIds p) timerEventName of
        None \<Rightarrow> (Normal, p)
      | Some scheduled \<Rightarrow>
          timeoutEventHandler (putTokenAt fuel env) env (callback scheduled) (timerEvent scheduled) p)"

definition emitDeferredEvents :: "process \<Rightarrow> process" where
  "emitDeferredEvents p =
     p\<lparr>deferEvents := False,
       nextTicks := nextTicks p @ map TickEmit (deferredEvents p),
       deferredEvents := []\<rparr>"

definition runNextTick :: "nat \<Rightarrow> env \<Rightarrow> process \<Rightarrow> result" where
  "runNextTick fuel env p =
     (case nextTicks p of
        [] \<Rightarrow> (Normal, p)
      | TickEmit ev # rest \<Rightarrow> emit (putTokenAt fuel env) env ev (p\<lparr>nextTicks := rest\<rparr>)
      | TickEmitEvent (Event evType n data) # rest \<Rightarrow>
          emitEvent (putTokenAt fuel env) env evType n data (p\<lparr>nextTicks := rest\<rparr>))"

text \<open>
  \<open>setPersistedData(loadedData)\<close>: state and history are rebuilt from the document, the
  timers are restored into a new \<open>BPMNPendingTimerEvents\<close>, and the properties are set
  last.
\<close>

definition setPersistedData_with :: "putter \<Rightarrow> env \<Rightarrow> document \<Rightarrow> process \<Rightarrow> result" where
  "setPersistedData_with put env loadedData p =
     (let p1 = p\<lparr>tokens := docState loadedData,
                 history := copyHistory (now env) (docHistory loadedData),
                 pendingTimeouts := [],
                 setTimeoutIds := []\<rparr>
      in andThen (restoreTimerEvents put env (docPendingTimeouts loadedData) p1)
           (\<lambda>p2. (Normal, p2\<lparr>properties := docProperties loadedData\<rparr>)))"

definition setPersistedData :: "nat \<Rightarrow> env \<Rightarrow> document \<Rightarrow> process \<Rightarrow> result" where
  "setPersistedData fuel env loadedData p = setPersistedData_with (putTokenAt fuel env) env loadedData p"

section \<open>Queries (lib/find.js)\<close>

text \<open>\<open>findByState(bpmnProcesses, stateName)\<close>; an empty state name finds all.\<close>

fun findByState_loop :: "process list \<Rightarrow> string \<Rightarrow> process list \<Rightarrow> process list" where
  "findByState_loop [] stateName foundProcesses = foundProcesses"
| "findByState_loop (bpmnProcess # bpmnProcesses) stateName foundProcesses =
     (let findAll = (stateName = [])
      in findByState_loop bpmnProcesses stateName
           (if findAll \<or> hasTokens (tokens bpmnProcess) stateName
            then foundProcesses @ [bpmnProcess] else foundProcesses))"

definition findByState :: "process list \<Rightarrow> string \<Rightarrow> process list" where
  "findByState bpmnProcesses stateName = findByState_loop bpmnProcesses stateName []"

section \<open>Sending messages over REST (lib/rest.js)\<close>










section \<open>Notions used to state the properties\<close>

subsection \<open>The canonical handler identifier, as the specification words it\<close>

text \<open>
  The characters the specification lists: colon, exclamation mark, backtick, tilde,
  caret, at-sign, asterisk, hash, cent sign, not sign, c-cedilla, question mark, broken
  bar, vertical bar, ampersand, semicolon, percent, double quote, angle brackets,
  parentheses, braces, square brackets, plus, comma, space, tab, newline.
\<close>

definition listedChars :: "char set" where
  "listedChars =
     {CHR '':'', CHR ''!'', CHR 0x60, CHR ''~'', CHR ''^'', CHR ''@'', CHR ''*'', CHR ''#'',
      CHR 0xA2, CHR 0xAC, CHR 0xE7, CHR ''?'', CHR 0xA6, CHR ''|'', CHR ''&'', CHR '';'',
      CHR ''%'', CHR 0x22, CHR ''<'', CHR ''>'', CHR ''('', CHR '')'', CHR ''{'', CHR ''}'',
      CHR ''['', CHR '']'', CHR ''+'', CHR '','', CHR '' '', CHR 0x09, CHR 0x0A}"

definition canonicalHandlerName :: "string \<Rightarrow> string" where
  "canonicalHandlerName n =
     (let replaced = map (\<lambda>c. if c \<in> listedChars then CHR ''_'' else c) n
      in case replaced of
           [] \<Rightarrow> replaced
         | c # cs \<Rightarrow> if c \<in> set ''0123456789''
                     then CHR ''_'' # replaced else replaced)"

text \<open>A handler module reduced to its entry under one key.\<close>

definition onlyEntry :: "string \<Rightarrow> (string \<Rightarrow> handler option) \<Rightarrow> (string \<Rightarrow> handler option)" where
  "onlyEntry k module = (\<lambda>k'. if k' = k then module k' else None)"

subsection \<open>Tokens of a state and of the states of its called processes\<close>

text \<open>
  \<open>occursIn tokens t\<close>: the token \<open>t\<close> is one of \<open>tokens\<close>, or occurs in the substate of a
  call activity token among them, to any depth.
\<close>

inductive occursIn :: "token list \<Rightarrow> token \<Rightarrow> bool" where
  own: "t \<in> set ts \<Longrightarrow> occursIn ts t"
| called: "CallActivityToken pos owner (Some sub) calledId \<in> set ts \<Longrightarrow> occursIn sub t
           \<Longrightarrow> occursIn ts t"

text \<open>An instance that holds a token at \<open>T\<close> only in the process called from \<open>CA\<close>.\<close>

definition parentOfT :: process where
  "parentOfT =
     \<lparr>processId = ''p1'',
      tokens = [CallActivityToken ''CA'' ''p1'' (Some [Token ''T'' ''p1::CA'']) ''p1::CA''],
      history = History [] 1 None, properties = [], pendingTimeouts = [], setTimeoutIds = [],
      views = \<lparr>startEvent = None, endEvent = None, duration = None\<rparr>,
      deferEvents = False, deferredEvents = [], nextTicks = [], persisted = [], trace = []\<rparr>"

subsection \<open>Branches of an exclusive gateway\<close>

text \<open>
  The name of the handler that decides a branch, whether that handler returns a truthy
  value, and the state after it has been asked (calling a handler leaves its mark in
  the trace).
\<close>

definition branchHandlerName :: "flowObject \<Rightarrow> sequenceFlow \<Rightarrow> string" where
  "branchHandlerName gateway flow = foName gateway @ ''$'' @ flowName flow"

definition branchHolds :: "env \<Rightarrow> flowObject \<Rightarrow> jsval \<Rightarrow> sequenceFlow \<Rightarrow> bool" where
  "branchHolds env gateway data flow =
     (case eventHandler env (canonicalHandlerName (branchHandlerName gateway flow)) of
        Some (HFunction f) \<Rightarrow>
          (case f data of CallsDone d r \<Rightarrow> truthy r | Returns r \<Rightarrow> truthy r | Raises \<Rightarrow> False)
      | _ \<Rightarrow> False)"

definition askBranch :: "env \<Rightarrow> flowObject \<Rightarrow> jsval \<Rightarrow> process \<Rightarrow> sequenceFlow \<Rightarrow> process" where
  "askBranch env gateway data p flow =
     snd (snd (callHandler env (branchHandlerName gateway flow) data noop p))"

subsection \<open>Example processes\<close>

definition mkFlowObject :: "string \<Rightarrow> string \<Rightarrow> string \<Rightarrow> kind \<Rightarrow> flowObject" where
  "mkFlowObject i n ty k = \<lparr>bpmnId = i, foName = n, foType = ty, foKind = k\<rparr>"

definition mkFlow :: "string \<Rightarrow> string \<Rightarrow> string \<Rightarrow> string \<Rightarrow> sequenceFlow" where
  "mkFlow i n src tgt =
     \<lparr>flowId = i, flowName = n, flowType = ''sequenceFlow'', sourceRef = src, targetRef = tgt\<rparr>"

definition newProcess :: "string \<Rightarrow> int \<Rightarrow> process" where
  "newProcess pid ts =
     \<lparr>processId = pid, tokens = [], history = freshHistory ts, properties = [],
      pendingTimeouts = [], setTimeoutIds = [],
      views = \<lparr>startEvent = None, endEvent = None, duration = None\<rparr>,
      deferEvents = False, deferredEvents = [], nextTicks = [], persisted = [], trace = []\<rparr>"

text \<open>
  An exclusive split: \<open>start\<close>, the gateway \<open>gw\<close> with the branches \<open>toA\<close> and \<open>toB\<close> to the
  wait task \<open>A\<close> and the service task \<open>B\<close>, and \<open>end\<close>. The handler \<open>gw$toA\<close> returns
  false, \<open>gw$toB\<close> returns true.
\<close>

definition splitDefinition :: processDefinition where
  "splitDefinition =
     \<lparr>pdName = ''Split'',
      flowObjects =
        [mkFlowObject ''1'' ''start'' ''startEvent'' StartEvent,
         mkFlowObject ''2'' ''gw'' ''exclusiveGateway'' ExclusiveGateway,
         mkFlowObject ''3'' ''A'' ''userTask'' Task,
         mkFlowObject ''4'' ''B'' ''serviceTask'' Task,
         mkFlowObject ''5'' ''end'' ''endEvent'' EndEvent],
      sequenceFlows =
        [mkFlow ''f1'' '''' ''1'' ''2'', mkFlow ''f2'' ''toA'' ''2'' ''3'',
         mkFlow ''f3'' ''toB'' ''2'' ''4'', mkFlow ''f4'' '''' ''3'' ''5'',
         mkFlow ''f5'' '''' ''4'' ''5'']\<rparr>"

definition splitHandlers :: "string \<Rightarrow> handler option" where
  "splitHandlers k =
     (if k = ''gw$toA'' then Some (HFunction (\<lambda>d. Returns (JBool False)))
      else if k = ''gw$toB'' then Some (HFunction (\<lambda>d. Returns (JBool True)))
      else if k = ''B'' then Some (HFunction (\<lambda>d. CallsDone d Undefined))
      else None)"

definition splitEnv :: env where
  "splitEnv =
     \<lparr>processDefinition = splitDefinition, eventHandler = splitHandlers,
      onBeginHandler = None, onEndHandler = None,
      defaultEventHandlerCallsDone = True, defaultErrorHandlerCallsDone = False,
      persistency = False, now = 1000\<rparr>"

definition splitGateway :: flowObject where
  "splitGateway = mkFlowObject ''2'' ''gw'' ''exclusiveGateway'' ExclusiveGateway"

text \<open>The instance when the token has just been taken from \<open>gw\<close>.\<close>

definition atSplitGateway :: process where
  "atSplitGateway =
     (newProcess ''id1'' 900)
       \<lparr>history := History [HistoryEntry ''start'' ''startEvent'' 950 (Some 950) None,
                            HistoryEntry ''gw'' ''exclusiveGateway'' 950 None None] 900 None\<rparr>"

text \<open>
  A parallel split and join: \<open>start\<close>, the gateway \<open>split\<close>, the wait tasks \<open>A\<close> and \<open>B\<close>, the
  gateway \<open>join\<close> and \<open>end\<close>, run with a persistency layer and without handlers.
\<close>

definition joinDefinition :: processDefinition where
  "joinDefinition =
     \<lparr>pdName = ''Join'',
      flowObjects =
        [mkFlowObject ''1'' ''start'' ''startEvent'' StartEvent,
         mkFlowObject ''2'' ''split'' ''parallelGateway'' ParallelGateway,
         mkFlowObject ''3'' ''A'' ''task'' Task,
         mkFlowObject ''4'' ''B'' ''task'' Task,
         mkFlowObject ''5'' ''join'' ''parallelGateway'' ParallelGateway,
         mkFlowObject ''6'' ''end'' ''endEvent'' EndEvent],
      sequenceFlows =
        [mkFlow ''f1'' '''' ''1'' ''2'', mkFlow ''f2'' '''' ''2'' ''3'',
         mkFlow ''f3'' '''' ''2'' ''4'', mkFlow ''f4'' '''' ''3'' ''5'',
         mkFlow ''f5'' '''' ''4'' ''5'', mkFlow ''f6'' '''' ''5'' ''6'']\<rparr>"

definition joinEnv :: env where
  "joinEnv =
     \<lparr>processDefinition = joinDefinition, eventHandler = (\<lambda>k. None),
      onBeginHandler = None, onEndHandler = None,
      defaultEventHandlerCallsDone = True, defaultErrorHandlerCallsDone = False,
      persistency = True, now = 2000\<rparr>"

definition joinGateway :: flowObject where
  "joinGateway = mkFlowObject ''5'' ''join'' ''parallelGateway'' ParallelGateway"

text \<open>
  The instance when the token that came from \<open>A\<close> has just been taken from \<open>join\<close>, while
  \<open>B\<close> is still waiting.
\<close>

definition firstAtJoin :: process where
  "firstAtJoin =
     (newProcess ''id2'' 1900)
       \<lparr>tokens := [Token ''B'' ''id2''],
        history := History [HistoryEntry ''start'' ''startEvent'' 1950 (Some 1950) None,
                            HistoryEntry ''split'' ''parallelGateway'' 1950 (Some 1950) None,
                            HistoryEntry ''A'' ''task'' 1950 (Some 1990) None,
                            HistoryEntry ''B'' ''task'' 1950 None None,
                            HistoryEntry ''join'' ''parallelGateway'' 1990 None None] 1900 None\<rparr>"

subsection \<open>Names in a history\<close>

text \<open>
  \<open>entryIn h e\<close>: \<open>e\<close> is an entry of the history \<open>h\<close> or of the sub-history of one of its
  entries, to any depth.
\<close>

inductive entryIn :: "history \<Rightarrow> historyEntry \<Rightarrow> bool" where
  top: "e \<in> set (historyEntries h) \<Longrightarrow> entryIn h e"
| sub: "e' \<in> set (historyEntries h) \<Longrightarrow> subhistory e' = Some h' \<Longrightarrow> entryIn h' e \<Longrightarrow> entryIn h e"

definition bearsName :: "history \<Rightarrow> string \<Rightarrow> bool" where
  "bearsName h n = (\<exists>e. entryIn h e \<and> entryName e = n)"

subsection \<open>Timers\<close>

text \<open>
  What the handler \<open>name$getTimeout\<close> returns when the engine asks it, and the state
  after it has been asked.
\<close>

definition getTimeoutValue :: "env \<Rightarrow> string \<Rightarrow> jsval" where
  "getTimeoutValue env timerEventName =
     (case eventHandler env (canonicalHandlerName (timerEventName @ ''$getTimeout'')) of
        Some (HFunction f) \<Rightarrow>
          (case f Undefined of CallsDone d r \<Rightarrow> r | Returns r \<Rightarrow> r | Raises \<Rightarrow> Undefined)
      | _ \<Rightarrow> Undefined)"

definition askTimeout :: "env \<Rightarrow> string \<Rightarrow> process \<Rightarrow> process" where
  "askTimeout env timerEventName p =
     snd (snd (callHandler env (timerEventName @ ''$getTimeout'') Undefined noop p))"

text \<open>The callback \<open>restoreTimerEvents\<close> registers for a timer event.\<close>

definition callbackOf :: "flowObject \<Rightarrow> timerCallback" where
  "callbackOf timerEv =
     (if isIntermediateCatchEvent timerEv then IntermediateTimerCallback else BoundaryTimerCallback)"

text \<open>
  A pending timer is restorable at a clock reading when its name resolves to a flow
  object of that name whose \<open>getTimeout\<close> handler returns a number, and it is still
  ahead when its \<open>at\<close> is later than the reading.
\<close>

definition restorable :: "env \<Rightarrow> string \<times> timeout \<Rightarrow> bool" where
  "restorable env entry =
     (case getFlowObjectByName (processDefinition env) (fst entry) of
        Inr (Some timerEv) \<Rightarrow>
          foName timerEv = fst entry \<and> \<not> isNaN (getTimeoutValue env (fst entry))
      | _ \<Rightarrow> False)"

definition ahead :: "env \<Rightarrow> string \<times> timeout \<Rightarrow> bool" where
  "ahead env entry = (at (snd entry) > now env)"

text \<open>The timer \<open>restoreTimerEvents\<close> schedules for a pending timeout that is ahead.\<close>

definition rescheduled :: "env \<Rightarrow> string \<times> timeout \<Rightarrow> string \<times> scheduledTimer" where
  "rescheduled env entry =
     (fst entry,
      \<lparr>callback = (case getFlowObjectByName (processDefinition env) (fst entry) of
                     Inr (Some timerEv) \<Rightarrow> callbackOf timerEv | _ \<Rightarrow> BoundaryTimerCallback),
       timerEvent = (case getFlowObjectByName (processDefinition env) (fst entry) of
                       Inr (Some timerEv) \<Rightarrow> timerEv
                     | _ \<Rightarrow> mkFlowObject [] (fst entry) [] NoFlowObject),
       delay = at (snd entry) - now env\<rparr>)"

text \<open>Timestamps that are readings of the clock: none of them is \<open>0\<close>.\<close>

primrec clockEntry :: "historyEntry \<Rightarrow> bool"
  and clockHistory :: "history \<Rightarrow> bool" where
  "clockEntry (HistoryEntry n ty b e sub) =
     (b \<noteq> 0 \<and> e \<noteq> Some 0 \<and> (case map_option clockHistory sub of None \<Rightarrow> True | Some ok \<Rightarrow> ok))"
| "clockHistory (History entries created finished) =
     (list_all id (map clockEntry entries) \<and> finished \<noteq> Some 0)"

text \<open>
  A wait task with a boundary timer: \<open>start\<close>, the user task \<open>W\<close> with the boundary timer
  event \<open>BT\<close> attached, \<open>end\<close> after \<open>W\<close> and \<open>late\<close> after \<open>BT\<close>. The handler
  \<open>BT$getTimeout\<close> returns 50. The instance waits at \<open>W\<close> with the timer due at 5000.
\<close>

definition timerDefinition :: processDefinition where
  "timerDefinition =
     \<lparr>pdName = ''Timer'',
      flowObjects =
        [mkFlowObject ''1'' ''start'' ''startEvent'' StartEvent,
         mkFlowObject ''2'' ''W'' ''userTask'' Task,
         mkFlowObject ''3'' ''BT'' ''boundaryEvent'' (BoundaryEvent ''2'' True),
         mkFlowObject ''4'' ''end'' ''endEvent'' EndEvent,
         mkFlowObject ''5'' ''late'' ''endEvent'' EndEvent],
      sequenceFlows =
        [mkFlow ''f1'' '''' ''1'' ''2'', mkFlow ''f2'' '''' ''2'' ''4'',
         mkFlow ''f3'' '''' ''3'' ''5'']\<rparr>"

definition timerEnv :: "int \<Rightarrow> env" where
  "timerEnv clock =
     \<lparr>processDefinition = timerDefinition,
      eventHandler = (\<lambda>k. if k = ''BT$getTimeout'' then Some (HFunction (\<lambda>d. Returns (JNum 50)))
                          else None),
      onBeginHandler = None, onEndHandler = None,
      defaultEventHandlerCallsDone = True, defaultErrorHandlerCallsDone = False,
      persistency = True, now = clock\<rparr>"

definition boundaryTimer :: flowObject where
  "boundaryTimer = mkFlowObject ''3'' ''BT'' ''boundaryEvent'' (BoundaryEvent ''2'' True)"

definition dueAt5000 :: timeout where
  "dueAt5000 = \<lparr>at = 5000, timeoutInMs = JNum 50\<rparr>"

definition waitingAtW :: process where
  "waitingAtW =
     (newProcess ''id3'' 4900)
       \<lparr>tokens := [Token ''W'' ''id3''],
        history := History [HistoryEntry ''start'' ''startEvent'' 4950 (Some 4950) None,
                            HistoryEntry ''W'' ''userTask'' 4950 None None] 4900 None,
        properties := [(''customer'', JNum 7)],
        pendingTimeouts := [(''BT'', dueAt5000)],
        setTimeoutIds := [(''BT'', \<lparr>callback = BoundaryTimerCallback, timerEvent = boundaryTimer,
                                     delay = 50\<rparr>)]\<rparr>"

text \<open>A new instance of the same id while its document is being loaded.\<close>

definition loading :: process where
  "loading = (newProcess ''id3'' 6000)\<lparr>deferEvents := True\<rparr>"

text \<open>
  The exclusive split with a persistency layer, and the instance that ran from \<open>start\<close>
  to \<open>end\<close> while the clock read \<open>0\<close>; the engine has persisted its document at the end.
\<close>

definition splitStore :: "int \<Rightarrow> env" where
  "splitStore clock = splitEnv\<lparr>persistency := True, now := clock\<rparr>"

definition ranAtZero :: process where
  "ranAtZero = snd (triggerEvent 10 (splitStore 0) ''start'' Undefined (newProcess ''id1'' 0))"






text \<open>
  A PUT request by its tuple and body, and the server after a list of requests, served
  one after the other.
\<close>

record request =
  reqProcessName :: string
  reqId :: string
  reqMessageName :: string
  reqMessageId :: string
  reqBody :: jsval




text \<open>A tuple none of whose parts contains a dot.\<close>

definition dotFree :: "string \<Rightarrow> bool" where
  "dotFree s = (CHR ''.'' \<notin> set s)"

definition plain :: "request \<Rightarrow> bool" where
  "plain r =
     (dotFree (reqProcessName r) \<and> dotFree (reqId r) \<and> dotFree (reqMessageName r) \<and>
      dotFree (reqMessageId r))"







subsection \<open>The order of the history hooks\<close>

text \<open>
  What must have happened before an action: a history entry is added for a flow object
  after a token was put on it, a token is handled at a flow object after the history
  entry of the arrival was added, and a token leaves a flow object along a flow after the
  end of its history entry was set.
\<close>

fun needs :: "action \<Rightarrow> action list" where
  "needs (EntryAdded x) = [TokenPut x]"
| "needs (TokenArrived x) = [EntryAdded x]"
| "needs (TokenEmitted x f) = [EndSet x]"
| "needs a = []"

fun inOrder :: "action list \<Rightarrow> action list \<Rightarrow> bool" where
  "inOrder earlier [] = True"
| "inOrder earlier (a # rest) =
     (list_all (\<lambda>b. b \<in> set earlier) (needs a) \<and> inOrder (a # earlier) rest)"

text \<open>An event that waits to be emitted: for the arrival of a token the entry was added.\<close>

fun announced :: "action list \<Rightarrow> event \<Rightarrow> bool" where
  "announced tr (Event evType x d) =
     (if evType = TOKEN_ARRIVED_EVENT then EntryAdded x \<in> set tr else True)"

fun eventOf :: "tick \<Rightarrow> event" where
  "eventOf (TickEmit ev) = ev"
| "eventOf (TickEmitEvent ev) = ev"

text \<open>What the history holds after an action: the entry, and the entry with its end.\<close>

fun reflected :: "history \<Rightarrow> action \<Rightarrow> bool" where
  "reflected h (EntryAdded x) = list_ex (\<lambda>e. entryName e = x) (historyEntries h)"
| "reflected h (EndSet x) =
     list_ex (\<lambda>e. entryName e = x \<and> entryEnd e \<noteq> None) (historyEntries h)"
| "reflected h a = True"

definition wellOrdered :: "process \<Rightarrow> bool" where
  "wellOrdered p =
     (inOrder [] (trace p) \<and>
      list_all (reflected (history p)) (trace p) \<and>
      list_all (announced (trace p)) (deferredEvents p) \<and>
      list_all (\<lambda>t. announced (trace p) (eventOf t)) (nextTicks p))"

text \<open>
  The last entry of a name in a list of entries, by its index, and whether the entry at
  an index has a later entry of its name.
\<close>

definition lastNamed :: "string \<Rightarrow> historyEntry list \<Rightarrow> nat option" where
  "lastNamed n entries = find (\<lambda>i. entryName (entries ! i) = n) (rev [0..<length entries])"

definition laterNamesake :: "historyEntry list \<Rightarrow> nat \<Rightarrow> bool" where
  "laterNamesake entries j =
     list_ex (\<lambda>e. entryName e = entryName (entries ! j)) (drop (Suc j) entries)"

text \<open>
  A history that has grown out of another: no entry is gone or has moved, no name, type,
  begin or subhistory has changed, and an end has changed only on an entry that had no
  later entry of its name.
\<close>

definition keepsHistory :: "history \<Rightarrow> history \<Rightarrow> bool" where
  "keepsHistory h h' =
     (length (historyEntries h) \<le> length (historyEntries h') \<and>
      createdAt h' = createdAt h \<and>
      list_all
        (\<lambda>j. entryName (historyEntries h' ! j) = entryName (historyEntries h ! j) \<and>
             entryType (historyEntries h' ! j) = entryType (historyEntries h ! j) \<and>
             entryBegin (historyEntries h' ! j) = entryBegin (historyEntries h ! j) \<and>
             subhistory (historyEntries h' ! j) = subhistory (historyEntries h ! j) \<and>
             (entryEnd (historyEntries h' ! j) = entryEnd (historyEntries h ! j) \<or>
              \<not> laterNamesake (historyEntries h) j))
        [0..<length (historyEntries h)])"

text \<open>
  A step of the engine that adds to the trace, lets the history grow and keeps the
  instance well ordered.
\<close>

definition grows :: "process \<Rightarrow> process \<Rightarrow> bool" where
  "grows p p' =
     (prefix (trace p) (trace p') \<and> keepsHistory (history p) (history p') \<and>
      (wellOrdered p \<longrightarrow> wellOrdered p'))"

definition putGrows :: "putter \<Rightarrow> bool" where
  "putGrows put = (\<forall>fo data p. grows p (snd (put fo data p)))"

text \<open>
  The instance right after a token was put on a flow object: the token of the instance
  itself at the end of the state, and one entry at the end of the history, with the name
  and type of the flow object, the clock reading as its begin and no end.
\<close>

definition withToken :: "flowObject \<Rightarrow> process \<Rightarrow> process" where
  "withToken fo p = p\<lparr>tokens := tokens p @ [Token (foName fo) (processId p)]\<rparr>"

definition arrival :: "env \<Rightarrow> flowObject \<Rightarrow> process \<Rightarrow> process" where
  "arrival env fo p =
     p\<lparr>tokens := tokens p @ [Token (foName fo) (processId p)],
       history :=
         History (historyEntries (history p) @
                    [HistoryEntry (foName fo) (foType fo) (now env) None None])
           (createdAt (history p)) (finishedAt (history p)),
       trace := trace p @ [TokenPut (foName fo), EntryAdded (foName fo)],
       views := (if isStartEvent fo then (views p)\<lparr>startEvent := Some 0\<rparr> else views p)\<rparr>"

text \<open>What goes on once the entry is there, with or without the hook \<open>onBeginHandler\<close>.\<close>

definition afterBegin ::
  "env \<Rightarrow> flowObject \<Rightarrow> jsval \<Rightarrow> (process \<Rightarrow> result) \<Rightarrow> process \<Rightarrow> result" where
  "afterBegin env fo data done p =
     (case onBeginHandler env of
        None \<Rightarrow> done p
      | Some h \<Rightarrow>
          if h (foName fo) data then done (log (BeginHandlerCalled (foName fo)) p)
          else (Normal, log (BeginHandlerCalled (foName fo)) p))"

text \<open>
  The instance right after the end was set on the entry at an index: that entry has the
  clock reading as its end, and no other entry has changed.
\<close>

definition endedAt :: "env \<Rightarrow> nat \<Rightarrow> process \<Rightarrow> process" where
  "endedAt env i p =
     (let e = historyEntries (history p) ! i;
          h = History
                ((historyEntries (history p))
                   [i := HistoryEntry (entryName e) (entryType e) (entryBegin e) (Some (now env))
                           (subhistory e)])
                (createdAt (history p))
                (if isEndEventName (entryType e) then Some (now env) else finishedAt (history p));
          ended = p\<lparr>history := h, trace := trace p @ [EndSet (entryName e)]\<rparr>
      in if isFinished h
         then ended\<lparr>views := (views p)\<lparr>duration :=
                        Some ((case finishedAt h of None \<Rightarrow> 0 | Some f \<Rightarrow> f) - createdAt h)\<rparr>\<rparr>
         else ended)"

text \<open>
  Setting the end for a name and going on: the end goes on the last entry of the name,
  and without such an entry there is a TypeError. With the hook \<open>onEndHandler\<close> this
  happens when the hook calls back.
\<close>

definition settingEnd :: "env \<Rightarrow> string \<Rightarrow> (process \<Rightarrow> result) \<Rightarrow> process \<Rightarrow> result" where
  "settingEnd env n done p =
     (case lastNamed n (historyEntries (history p)) of
        None \<Rightarrow> (Thrown TypeError, p)
      | Some i \<Rightarrow> done (endedAt env i p))"

definition afterEndHook ::
  "env \<Rightarrow> string \<Rightarrow> jsval \<Rightarrow> (process \<Rightarrow> result) \<Rightarrow> process \<Rightarrow> result" where
  "afterEndHook env n data finished p =
     (case onEndHandler env of
        None \<Rightarrow> finished p
      | Some h \<Rightarrow>
          if h n data then finished (log (EndHandlerCalled n) p)
          else (Normal, log (EndHandlerCalled n) p))"

text \<open>
  Where the tokens of a flow object are placed, by its kind: what follows the setting of
  the end when the flow object emits its tokens. A parallel gateway is still waiting when
  its tokens, with the one that has just come, are not as many as its incoming flows.
\<close>

definition placing :: "putter \<Rightarrow> env \<Rightarrow> flowObject \<Rightarrow> jsval \<Rightarrow> process \<Rightarrow> result" where
  "placing put env fo data p =
     (let flows = getOutgoingSequenceFlows (processDefinition env) fo
      in case foKind fo of
           ExclusiveGateway \<Rightarrow> exclusiveGateway_iter put env fo (length flows > 1) data flows False p
         | ParallelGateway \<Rightarrow>
             forEach flows (\<lambda>flow. emitTokenAlong put env fo flow data)
               (p\<lparr>tokens := removeAllTokensAt (foName fo) (tokens p)\<rparr>)
         | EndEvent \<Rightarrow> onProcessEnd env (foName fo) p
         | _ \<Rightarrow> forEach flows (\<lambda>flow. emitTokenAlong put env fo flow data) p)"

definition stillWaiting :: "env \<Rightarrow> flowObject \<Rightarrow> process \<Rightarrow> bool" where
  "stillWaiting env fo p =
     (foKind fo = ParallelGateway \<and>
      numberOfTokensAt (foName fo) (tokens (withToken fo p)) \<noteq>
        length (getIncomingSequenceFlows (processDefinition env) fo))"

text \<open>
  The service task \<open>B\<close> of the exclusive split, the instance before the token is put on
  it, and the instance in which its handler, called for the arrival, calls \<open>done\<close>.
\<close>

definition taskB :: flowObject where
  "taskB = mkFlowObject ''4'' ''B'' ''serviceTask'' Task"

definition beforeB :: process where
  "beforeB =
     (newProcess ''id1'' 900)
       \<lparr>history := History [HistoryEntry ''start'' ''startEvent'' 950 (Some 950) None,
                            HistoryEntry ''gw'' ''exclusiveGateway'' 950 (Some 950) None] 900 None\<rparr>"

definition calledAtB :: process where
  "calledAtB =
     log (HandlerCalled ''B'' (JObj [])) (log (TokenArrived ''B'') (arrival splitEnv taskB beforeB))"

text \<open>
  The parallel split and join run to its end without a persistency layer: the process is
  started, then the task \<open>A\<close> is done, then the task \<open>B\<close>.
\<close>

definition joinEnvWithoutStore :: env where
  "joinEnvWithoutStore = joinEnv\<lparr>persistency := False\<rparr>"

definition joinRun :: result where
  "joinRun =
     andThen (triggerEvent 10 joinEnvWithoutStore ''start'' Undefined (newProcess ''id2'' 1900))
       (\<lambda>p. andThen (triggerEvent 10 joinEnvWithoutStore ''ADone'' Undefined p)
              (triggerEvent 10 joinEnvWithoutStore ''BDone'' Undefined))"

section \<open>Properties of the handler name mapping\<close>

lemma set_nonAllowedChars: "set nonAllowedChars = listedChars"
  unfolding nonAllowedChars_def listedChars_def by auto

lemma mapName2HandlerName_canonical: "mapName2HandlerName n = canonicalHandlerName n"
  unfolding mapName2HandlerName_def canonicalHandlerName_def replaceNonAllowed_def
    startsWithDigit_def isDigit_def Let_def set_nonAllowedChars
  by (cases n) auto

lemma callHandler_onlyEntry:
  "callHandler (env\<lparr>eventHandler := onlyEntry (mapName2HandlerName n) (eventHandler env)\<rparr>) n data done p =
   callHandler env n data done p"
  unfolding callHandler_def getHandlerFromProcess_def onlyEntry_def
    callDefaultEventHandler_def callDefaultErrorHandler_def
  by (simp cong: option.case_cong handler.case_cong behaviour.case_cong prod.case_cong
        outcome.case_cong)

text \<open>
  C8. The handler name of the source is the canonical identifier of the specification:
  every listed character replaced by an underscore, and an underscore put in front when
  the result starts with a digit. The lookup of a handler reads the handler module at
  that identifier, and \<open>callHandler\<close> depends on no other entry of the module.
\<close>

theorem C8_canonical_handler_name:
  "mapName2HandlerName n = canonicalHandlerName n \<and>
   getHandlerFromProcess n env = eventHandler env (canonicalHandlerName n) \<and>
   callHandler env n data done p =
     callHandler (env\<lparr>eventHandler := onlyEntry (canonicalHandlerName n) (eventHandler env)\<rparr>)
       n data done p"
  using callHandler_onlyEntry [where env = env and n = n and data = data and p = p]
  by (simp add: mapName2HandlerName_canonical getHandlerFromProcess_def)

section \<open>Properties of the token queries\<close>

lemma occursIn_Nil: "occursIn [] t = False"
  by (auto elim: occursIn.cases)

lemma occursIn_Cons:
  "occursIn (x # xs) t \<longleftrightarrow>
     t = x \<or> (\<exists>sub. substate x = Some sub \<and> occursIn sub t) \<or> occursIn xs t"
proof
  assume "occursIn (x # xs) t"
  then show "t = x \<or> (\<exists>sub. substate x = Some sub \<and> occursIn sub t) \<or> occursIn xs t"
  proof (cases rule: occursIn.cases)
    case own
    then show ?thesis by (auto intro: occursIn.own)
  next
    case (called pos owner sub calledId)
    then show ?thesis by (auto intro: occursIn.called)
  qed
next
  assume "t = x \<or> (\<exists>sub. substate x = Some sub \<and> occursIn sub t) \<or> occursIn xs t"
  then consider "t = x" | sub where "substate x = Some sub" "occursIn sub t" | "occursIn xs t"
    by blast
  then show "occursIn (x # xs) t"
  proof cases
    case 1
    then show ?thesis by (simp add: occursIn.own)
  next
    case 2
    then obtain pos owner calledId where "x = CallActivityToken pos owner (Some sub) calledId"
      by (cases x) auto
    with 2 show ?thesis by (auto intro: occursIn.called)
  next
    case 3
    then show ?thesis
    proof (cases rule: occursIn.cases)
      case own
      then show ?thesis by (simp add: occursIn.own)
    next
      case (called pos owner sub calledId)
      then show ?thesis by (auto intro: occursIn.called)
    qed
  qed
qed

lemma set_findTokens_into:
  "set (findTokens_into n ts found) = set found \<union> {t. occursIn ts t \<and> position t = n}"
  by (induction n ts found rule: findTokens_into.induct)
     (auto simp: occursIn_Nil occursIn_Cons)

lemma set_findTokens: "set (findTokens ts n) = {t. occursIn ts t \<and> position t = n}"
  by (simp add: findTokens_def set_findTokens_into)

lemma hasTokens_iff: "hasTokens ts n \<longleftrightarrow> (\<exists>t. occursIn ts t \<and> position t = n)"
proof -
  have "hasTokens ts n \<longleftrightarrow> set (findTokens ts n) \<noteq> {}"
    by (simp add: hasTokens_def)
  then show ?thesis by (auto simp: set_findTokens)
qed

lemma getFirstToken_iff:
  "(\<exists>t. getFirstToken ts n = Some t) \<longleftrightarrow> (\<exists>t. occursIn ts t \<and> position t = n)"
proof -
  have "(\<exists>t. getFirstToken ts n = Some t) \<longleftrightarrow> set (findTokens ts n) \<noteq> {}"
    by (cases "findTokens ts n") (simp_all add: getFirstToken_def)
  then show ?thesis by (auto simp: set_findTokens)
qed

lemma findByState_loop_filter:
  "findByState_loop ps n found = found @ filter (\<lambda>p. n = [] \<or> hasTokens (tokens p) n) ps"
  by (induction ps arbitrary: found) (simp_all add: Let_def)

lemma findByState_filter:
  "findByState ps n = filter (\<lambda>p. n = [] \<or> hasTokens (tokens p) n) ps"
  by (simp add: findByState_def findByState_loop_filter)

lemma count_filter: "numberOfTokensAt_loop n ts c = c + length (filter (\<lambda>t. position t = n) ts)"
  by (induction ts arbitrary: c) auto

lemma numberOfTokensAt_filter:
  "numberOfTokensAt n ts = length (filter (\<lambda>t. position t = n) ts)"
  by (simp add: numberOfTokensAt_def count_filter)

text \<open>
  C9. The token queries look into the substates of call activity tokens: \<open>findTokens\<close>
  returns the tokens at the name that occur in the state or, to any depth, in the state
  of a called process; \<open>hasTokens\<close> and \<open>getFirstToken\<close> succeed exactly when there is
  one. So \<open>findByState\<close> returns the instances that hold such a token anywhere, and in
  particular an instance without a token of its own at the name whose called process
  holds one.
\<close>

theorem C9_queries_search_called_processes:
  "set (findTokens ts n) = {t. occursIn ts t \<and> position t = n} \<and>
   hasTokens ts n = (\<exists>t. occursIn ts t \<and> position t = n) \<and>
   (\<exists>t. getFirstToken ts n = Some t) = (\<exists>t. occursIn ts t \<and> position t = n) \<and>
   findByState ps n = filter (\<lambda>p. n = [] \<or> (\<exists>t. occursIn (tokens p) t \<and> position t = n)) ps \<and>
   (\<forall>p pos owner sub calledId t.
      p \<in> set ps \<and> numberOfTokensAt n (tokens p) = 0 \<and>
      CallActivityToken pos owner (Some sub) calledId \<in> set (tokens p) \<and>
      t \<in> set sub \<and> position t = n
      \<longrightarrow> p \<in> set (findByState ps n))"
proof -
  have a: "findByState ps n = filter (\<lambda>p. n = [] \<or> (\<exists>t. occursIn (tokens p) t \<and> position t = n)) ps"
    by (simp add: findByState_filter hasTokens_iff)
  have b: "p \<in> set (findByState ps n)"
    if "p \<in> set ps" "CallActivityToken pos owner (Some sub) calledId \<in> set (tokens p)"
       "t \<in> set sub" "position t = n" for p pos owner sub calledId t
  proof -
    have "occursIn sub t" using that(3) by (rule occursIn.own)
    with that(2) have "occursIn (tokens p) t" by (rule occursIn.called)
    with that(1,4) show ?thesis by (auto simp: a)
  qed
  show ?thesis
    using a b by (simp add: set_findTokens hasTokens_iff getFirstToken_iff) blast
qed

theorem C9_witness:
  "numberOfTokensAt ''T'' (tokens parentOfT) = 0 \<and> findByState [parentOfT] ''T'' = [parentOfT]"
proof -
  have own: "numberOfTokensAt ''T'' (tokens parentOfT) = 0"
    by (simp add: parentOfT_def numberOfTokensAt_def)
  have sub: "CallActivityToken ''CA'' ''p1'' (Some [Token ''T'' ''p1::CA'']) ''p1::CA''
               \<in> set (tokens parentOfT)"
    by (simp add: parentOfT_def)
  have inner: "Token ''T'' ''p1::CA'' \<in> set [Token ''T'' ''p1::CA'']"
              "position (Token ''T'' ''p1::CA'') = ''T''"
    by simp_all
  have listed: "parentOfT \<in> set [parentOfT]"
    by simp
  have "parentOfT \<in> set (findByState [parentOfT] ''T'')"
    using C9_queries_search_called_processes [where ps = "[parentOfT]" and n = "''T''" and ts = "[]"]
      own sub inner listed
    by blast
  then have "findByState [parentOfT] ''T'' = [parentOfT]"
    by (simp add: findByState_filter split: if_splits)
  with own show ?thesis by simp
qed

section \<open>Properties of removing tokens\<close>

lemma removeTokenAt_loop_removed: "removeTokenAt_loop n ts True new = new @ ts"
  by (induction ts arbitrary: new) auto

lemma removeTokenAt_loop_searching:
  "removeTokenAt_loop n ts False new =
     new @ takeWhile (\<lambda>t. position t \<noteq> n) ts @ drop 1 (dropWhile (\<lambda>t. position t \<noteq> n) ts)"
  by (induction ts arbitrary: new) (auto simp: removeTokenAt_loop_removed)

lemma removeTokenAt_split:
  "removeTokenAt n ts =
     takeWhile (\<lambda>t. position t \<noteq> n) ts @ drop 1 (dropWhile (\<lambda>t. position t \<noteq> n) ts)"
  by (simp add: removeTokenAt_def removeTokenAt_loop_searching)

lemma removeAllTokensAt_loop_filter:
  "removeAllTokensAt_loop n ts new = new @ filter (\<lambda>t. position t \<noteq> n) ts"
  by (induction ts arbitrary: new) auto

lemma removeAllTokensAt_filter: "removeAllTokensAt n ts = filter (\<lambda>t. position t \<noteq> n) ts"
  by (simp add: removeAllTokensAt_def removeAllTokensAt_loop_filter)

lemma removeTokenAt_absent:
  "\<not> list_ex (\<lambda>t. position t = n) ts \<Longrightarrow> removeTokenAt n ts = ts"
  by (induction ts) (auto simp: removeTokenAt_split)

lemma removeTokenAt_present:
  "\<not> list_ex (\<lambda>t. position t = n) pre \<Longrightarrow> position t = n \<Longrightarrow>
   removeTokenAt n (pre @ t # post) = pre @ post"
  by (induction pre) (auto simp: removeTokenAt_split)

lemma findTokens_into_all:
  fixes unused :: "token list"
  shows "\<forall>found. findTokens_into n ts found = found @ findTokens_into n ts []"
proof (induction n ts unused rule: findTokens_into.induct)
  case (1 flowObjectName foundTokens)
  show ?case by simp
next
  case (2 flowObjectName pos owner rest foundTokens)
  show ?case
  proof
    fix found
    from 2 have rest: "findTokens_into flowObjectName rest acc =
                         acc @ findTokens_into flowObjectName rest []" for acc
      by blast
    show "findTokens_into flowObjectName (Token pos owner # rest) found =
            found @ findTokens_into flowObjectName (Token pos owner # rest) []"
      using rest [of "found @ [Token pos owner]"] rest [of "[Token pos owner]"] rest [of found]
      by (cases "pos = flowObjectName") auto
  qed
next
  case (3 flowObjectName pos owner called rest foundTokens)
  show ?case
  proof
    fix found
    from 3 have rest: "findTokens_into flowObjectName rest acc =
                         acc @ findTokens_into flowObjectName rest []" for acc
      by blast
    show "findTokens_into flowObjectName (CallActivityToken pos owner None called # rest) found =
            found @ findTokens_into flowObjectName (CallActivityToken pos owner None called # rest) []"
      using rest [of "found @ [CallActivityToken pos owner None called]"]
        rest [of "[CallActivityToken pos owner None called]"] rest [of found]
      by (cases "pos = flowObjectName") auto
  qed
next
  case (4 flowObjectName pos owner sub called rest foundTokens)
  show ?case
  proof
    fix found
    from 4 have rest: "findTokens_into flowObjectName rest acc =
                         acc @ findTokens_into flowObjectName rest []" for acc
      by blast
    from 4 have sub: "findTokens_into flowObjectName sub acc =
                         acc @ findTokens_into flowObjectName sub []" for acc
      by blast
    let ?own = "if pos = flowObjectName then [CallActivityToken pos owner (Some sub) called] else []"
    have step: "findTokens_into flowObjectName (CallActivityToken pos owner (Some sub) called # rest) acc =
                  acc @ ?own @ findTokens_into flowObjectName sub [] @
                  findTokens_into flowObjectName rest []" for acc
    proof -
      have "findTokens_into flowObjectName (CallActivityToken pos owner (Some sub) called # rest) acc =
              findTokens_into flowObjectName rest (findTokens_into flowObjectName sub (acc @ ?own))"
        by simp
      also have "\<dots> = findTokens_into flowObjectName sub (acc @ ?own) @
                        findTokens_into flowObjectName rest []"
        by (rule rest)
      also have "findTokens_into flowObjectName sub (acc @ ?own) =
                   (acc @ ?own) @ findTokens_into flowObjectName sub []"
        by (rule sub)
      finally show ?thesis by simp
    qed
    show "findTokens_into flowObjectName (CallActivityToken pos owner (Some sub) called # rest) found =
            found @ findTokens_into flowObjectName
                      (CallActivityToken pos owner (Some sub) called # rest) []"
      by (simp only: step [of found] step [of "[]"] append_Nil)
  qed
qed

lemma findTokens_into_found:
  "findTokens_into n ts found = found @ findTokens_into n ts []"
  using findTokens_into_all by blast

lemma findTokens_Cons: "findTokens (t # ts) n = findTokens [t] n @ findTokens ts n"
proof -
  have "findTokens_into n (t # ts) [] = findTokens_into n ts (findTokens_into n [t] [])"
    by (cases "(n, [t], [] :: token list)" rule: findTokens_into.cases) auto
  then show ?thesis
    using findTokens_into_found [of n ts "findTokens_into n [t] []"]
    by (simp add: findTokens_def)
qed

lemma findTokens_append: "findTokens (xs @ ys) n = findTokens xs n @ findTokens ys n"
proof (induction xs)
  case Nil
  then show ?case by (simp add: findTokens_def)
next
  case (Cons x xs)
  then show ?case
    using findTokens_Cons [of x "xs @ ys" n] findTokens_Cons [of x xs n] by simp
qed

lemma findTokens_concat: "findTokens ts n = concat (map (\<lambda>t. findTokens [t] n) ts)"
proof (induction ts)
  case Nil
  then show ?case by (simp add: findTokens_def)
next
  case (Cons t ts)
  then show ?case using findTokens_Cons [of t ts n] by simp
qed

text \<open>
  Claim C10, with the substate going where its token goes. \<open>removeTokenAt\<close> looks at the
  tokens of the state itself only: if none of them is at the name the state stays as it
  is, otherwise the first of them at the name is taken out and every other token of the
  state stays, in its place and with its substate. \<open>removeAllTokensAt\<close> takes out the
  tokens of the state itself that are at the name. What a query finds afterwards, at any
  name and to any depth, is what it found in the tokens that stay: the tokens in the
  substates of the tokens that stay are all still found, and what was found in a token
  that was taken out, the token and the tokens of its substate, is no longer part of the
  state.
\<close>

theorem C10_removeTokenAt_frame:
  "removeTokenAt n ts =
     takeWhile (\<lambda>t. position t \<noteq> n) ts @ drop 1 (dropWhile (\<lambda>t. position t \<noteq> n) ts) \<and>
   (if list_ex (\<lambda>t. position t = n) ts
    then length (removeTokenAt n ts) + 1 = length ts
    else removeTokenAt n ts = ts) \<and>
   removeAllTokensAt n ts = filter (\<lambda>t. position t \<noteq> n) ts \<and>
   (\<forall>pre t post. \<not> list_ex (\<lambda>t. position t = n) pre \<and> position t = n
      \<longrightarrow> removeTokenAt n (pre @ t # post) = pre @ post) \<and>
   (\<forall>m. findTokens ts m =
          findTokens (takeWhile (\<lambda>t. position t \<noteq> n) ts) m @
          findTokens (take 1 (dropWhile (\<lambda>t. position t \<noteq> n) ts)) m @
          findTokens (drop 1 (dropWhile (\<lambda>t. position t \<noteq> n) ts)) m \<and>
        findTokens (removeTokenAt n ts) m =
          findTokens (takeWhile (\<lambda>t. position t \<noteq> n) ts) m @
          findTokens (drop 1 (dropWhile (\<lambda>t. position t \<noteq> n) ts)) m) \<and>
   (\<forall>m. findTokens ts m = concat (map (\<lambda>t. findTokens [t] m) ts) \<and>
        findTokens (removeAllTokensAt n ts) m =
          concat (map (\<lambda>t. findTokens [t] m) (filter (\<lambda>t. position t \<noteq> n) ts)))"
proof -
  have one: "length (removeTokenAt n ts) + 1 = length ts" if "list_ex (\<lambda>t. position t = n) ts"
  proof -
    from that have "dropWhile (\<lambda>t. position t \<noteq> n) ts \<noteq> []"
      by (auto simp: list_ex_iff dropWhile_eq_Nil_conv)
    moreover have "length ts = length (takeWhile (\<lambda>t. position t \<noteq> n) ts)
                       + length (dropWhile (\<lambda>t. position t \<noteq> n) ts)"
      by (metis length_append takeWhile_dropWhile_id)
    ultimately show ?thesis
      by (cases "dropWhile (\<lambda>t. position t \<noteq> n) ts") (simp_all add: removeTokenAt_split)
  qed
  have none: "removeTokenAt n ts = ts" if "\<not> list_ex (\<lambda>t. position t = n) ts"
    using that by (rule removeTokenAt_absent)
  have first: "\<forall>pre t post. \<not> list_ex (\<lambda>t. position t = n) pre \<and> position t = n
      \<longrightarrow> removeTokenAt n (pre @ t # post) = pre @ post"
    using removeTokenAt_present by blast
  have cases: "if list_ex (\<lambda>t. position t = n) ts
               then length (removeTokenAt n ts) + 1 = length ts
               else removeTokenAt n ts = ts"
    using one none by (cases "list_ex (\<lambda>t. position t = n) ts") simp_all
  have parts: "ts = takeWhile (\<lambda>t. position t \<noteq> n) ts @
                    take 1 (dropWhile (\<lambda>t. position t \<noteq> n) ts) @
                    drop 1 (dropWhile (\<lambda>t. position t \<noteq> n) ts)"
    by simp
  have found: "findTokens ts m =
          findTokens (takeWhile (\<lambda>t. position t \<noteq> n) ts) m @
          findTokens (take 1 (dropWhile (\<lambda>t. position t \<noteq> n) ts)) m @
          findTokens (drop 1 (dropWhile (\<lambda>t. position t \<noteq> n) ts)) m" for m
    by (subst parts) (simp only: findTokens_append)
  have left: "findTokens (removeTokenAt n ts) m =
          findTokens (takeWhile (\<lambda>t. position t \<noteq> n) ts) m @
          findTokens (drop 1 (dropWhile (\<lambda>t. position t \<noteq> n) ts)) m" for m
    by (simp only: removeTokenAt_split findTokens_append)
  have one_by_one: "\<forall>m. findTokens ts m =
          findTokens (takeWhile (\<lambda>t. position t \<noteq> n) ts) m @
          findTokens (take 1 (dropWhile (\<lambda>t. position t \<noteq> n) ts)) m @
          findTokens (drop 1 (dropWhile (\<lambda>t. position t \<noteq> n) ts)) m \<and>
        findTokens (removeTokenAt n ts) m =
          findTokens (takeWhile (\<lambda>t. position t \<noteq> n) ts) m @
          findTokens (drop 1 (dropWhile (\<lambda>t. position t \<noteq> n) ts)) m"
    using found left by blast
  have all: "\<forall>m. findTokens ts m = concat (map (\<lambda>t. findTokens [t] m) ts) \<and>
        findTokens (removeAllTokensAt n ts) m =
          concat (map (\<lambda>t. findTokens [t] m) (filter (\<lambda>t. position t \<noteq> n) ts))"
    using findTokens_concat [of ts] findTokens_concat [of "filter (\<lambda>t. position t \<noteq> n) ts"]
    by (simp add: removeAllTokensAt_filter)
  from removeTokenAt_split [of n ts] cases removeAllTokensAt_filter [of n ts] first one_by_one all
  show ?thesis by (intro conjI)
qed

theorem C10_witness:
  "removeTokenAt ''T''
     [Token ''A'' ''p'', CallActivityToken ''CA'' ''p'' (Some [Token ''T'' ''p::CA'']) ''p::CA'',
      Token ''T'' ''p'', Token ''T'' ''p''] =
     [Token ''A'' ''p'', CallActivityToken ''CA'' ''p'' (Some [Token ''T'' ''p::CA'']) ''p::CA'',
      Token ''T'' ''p''] \<and>
   findTokens
     (removeTokenAt ''T''
        [Token ''A'' ''p'', CallActivityToken ''CA'' ''p'' (Some [Token ''T'' ''p::CA'']) ''p::CA'',
         Token ''T'' ''p'', Token ''T'' ''p'']) ''T'' =
     [Token ''T'' ''p::CA'', Token ''T'' ''p''] \<and>
   findTokens
     (removeTokenAt ''CA''
        [Token ''A'' ''p'', CallActivityToken ''CA'' ''p'' (Some [Token ''T'' ''p::CA'']) ''p::CA'',
         Token ''T'' ''p'']) ''T'' =
     [Token ''T'' ''p'']"
proof -
  have "\<not> list_ex (\<lambda>t. position t = ''T'')
            [Token ''A'' ''p'', CallActivityToken ''CA'' ''p'' (Some [Token ''T'' ''p::CA'']) ''p::CA'']"
       "position (Token ''T'' ''p'') = ''T''"
    by simp_all
  then have removed: "removeTokenAt ''T''
     [Token ''A'' ''p'', CallActivityToken ''CA'' ''p'' (Some [Token ''T'' ''p::CA'']) ''p::CA'',
      Token ''T'' ''p'', Token ''T'' ''p''] =
     [Token ''A'' ''p'', CallActivityToken ''CA'' ''p'' (Some [Token ''T'' ''p::CA'']) ''p::CA'',
      Token ''T'' ''p'']"
    using C10_removeTokenAt_frame [where n = "''T''" and ts = "[]"]
    by (metis append_Cons append_Nil)
  have kept: "findTokens
     [Token ''A'' ''p'', CallActivityToken ''CA'' ''p'' (Some [Token ''T'' ''p::CA'']) ''p::CA'',
      Token ''T'' ''p''] ''T'' = [Token ''T'' ''p::CA'', Token ''T'' ''p'']"
    by code_simp
  have gone: "findTokens
     (removeTokenAt ''CA''
        [Token ''A'' ''p'', CallActivityToken ''CA'' ''p'' (Some [Token ''T'' ''p::CA'']) ''p::CA'',
         Token ''T'' ''p'']) ''T'' =
     [Token ''T'' ''p'']"
    by code_simp
  from removed kept gone show ?thesis
    by simp
qed

theorem C10_counterexample:
  "hasTokens [Token ''A'' ''p'',
              CallActivityToken ''CA'' ''p'' (Some [Token ''T'' ''p::CA'', Token ''U'' ''p::CA''])
                ''p::CA''] ''T'' = True \<and>
   removeTokenAt ''CA''
     [Token ''A'' ''p'',
      CallActivityToken ''CA'' ''p'' (Some [Token ''T'' ''p::CA'', Token ''U'' ''p::CA'']) ''p::CA''] =
     [Token ''A'' ''p''] \<and>
   removeAllTokensAt ''CA''
     [Token ''A'' ''p'',
      CallActivityToken ''CA'' ''p'' (Some [Token ''T'' ''p::CA'', Token ''U'' ''p::CA'']) ''p::CA''] =
     [Token ''A'' ''p''] \<and>
   hasTokens (removeTokenAt ''CA''
     [Token ''A'' ''p'',
      CallActivityToken ''CA'' ''p'' (Some [Token ''T'' ''p::CA'', Token ''U'' ''p::CA''])
        ''p::CA'']) ''T'' = False"
proof -
  have before: "hasTokens [Token ''A'' ''p'',
              CallActivityToken ''CA'' ''p'' (Some [Token ''T'' ''p::CA'', Token ''U'' ''p::CA''])
                ''p::CA''] ''T'' = True"
    by code_simp
  have one: "removeTokenAt ''CA''
     [Token ''A'' ''p'',
      CallActivityToken ''CA'' ''p'' (Some [Token ''T'' ''p::CA'', Token ''U'' ''p::CA'']) ''p::CA''] =
     [Token ''A'' ''p'']"
    by code_simp
  have all: "removeAllTokensAt ''CA''
     [Token ''A'' ''p'',
      CallActivityToken ''CA'' ''p'' (Some [Token ''T'' ''p::CA'', Token ''U'' ''p::CA'']) ''p::CA''] =
     [Token ''A'' ''p'']"
    by code_simp
  have after: "hasTokens (removeTokenAt ''CA''
     [Token ''A'' ''p'',
      CallActivityToken ''CA'' ''p'' (Some [Token ''T'' ''p::CA'', Token ''U'' ''p::CA''])
        ''p::CA'']) ''T'' = False"
    by code_simp
  from before one all after show ?thesis
    by (intro conjI)
qed

section \<open>Properties of the gateways\<close>

lemma andThen_Normal [simp]: "andThen (Normal, p) f = f p"
  by (simp add: andThen_def)

lemma andThen_return [simp]: "andThen r (\<lambda>p. (Normal, p)) = r"
  by (cases r) (simp add: andThen_def split: outcome.splits)

lemma exclusiveGateway_iter_emitted:
  "exclusiveGateway_iter put env gw diverging data flows True p = (Normal, p)"
  by (induction flows) simp_all

lemma exclusiveGateway_iter_emitted_fun:
  "exclusiveGateway_iter put env gw diverging data flows True = (\<lambda>p. (Normal, p))"
  by (rule ext) (rule exclusiveGateway_iter_emitted)

lemma callHandler_noop:
  "callHandler env n data noop p =
     (fst (callHandler env n data noop p), Normal, snd (snd (callHandler env n data noop p)))"
  by (simp add: callHandler_def noop_def callDefaultEventHandler_def callDefaultErrorHandler_def
        Let_def split: option.splits handler.splits behaviour.splits)

lemma truthy_callHandler_noop:
  "truthy (fst (callHandler env (branchHandlerName gw flow) data noop p)) =
     branchHolds env gw data flow"
  by (simp add: callHandler_def noop_def callDefaultEventHandler_def callDefaultErrorHandler_def
        Let_def branchHolds_def getHandlerFromProcess_def mapName2HandlerName_canonical
      split: option.splits handler.splits behaviour.splits)

lemma exclusiveGateway_iter_diverging:
  "exclusiveGateway_iter put env gw True data flows False p =
     (case dropWhile (\<lambda>f. \<not> branchHolds env gw data f) flows of
        [] \<Rightarrow> (Normal, foldl (askBranch env gw data) p flows)
      | w # rest \<Rightarrow>
          emitTokenAlong put env gw w data
            (foldl (askBranch env gw data) p
               (takeWhile (\<lambda>f. \<not> branchHolds env gw data f) flows @ [w])))"
proof (induction flows arbitrary: p)
  case Nil
  then show ?case by simp
next
  case (Cons flow flows)
  obtain r p1 where
    c: "callHandler env (foName gw @ handlerNameSeparator @ flowName flow) data noop p = (r, Normal, p1)"
    using callHandler_noop by blast
  then have r: "truthy r = branchHolds env gw data flow"
    and p1: "p1 = askBranch env gw data p flow"
    using truthy_callHandler_noop [of env gw flow data p]
    by (simp_all add: branchHandlerName_def handlerNameSeparator_def askBranch_def)
  show ?case
  proof (cases "branchHolds env gw data flow")
    case True
    then show ?thesis
      using c r p1 by (simp add: exclusiveGateway_iter_emitted_fun)
  next
    case False
    have "exclusiveGateway_iter put env gw True data (flow # flows) False p =
          exclusiveGateway_iter put env gw True data flows False p1"
      using c r False by simp
    then show ?thesis
      using False p1 Cons.IH [of p1] by (simp cong: list.case_cong)
  qed
qed

lemma fold_flow_index:
  fixes flows :: "sequenceFlow list" and key :: "sequenceFlow \<Rightarrow> string"
  shows "fold (\<lambda>flow index.
             (case index (key flow) of
                Some entry \<Rightarrow> index(key flow \<mapsto> entry @ [flow])
              | None \<Rightarrow> index(key flow \<mapsto> [flow])))
       flows index k =
       (case filter (\<lambda>f. key f = k) flows of
          [] \<Rightarrow> index k
        | f # fs \<Rightarrow> Some ((case index k of None \<Rightarrow> [] | Some e \<Rightarrow> e) @ f # fs))"
proof (induction flows arbitrary: index)
  case Nil
  then show ?case by simp
next
  case (Cons flow flows)
  show ?case
  proof (cases "key flow = k")
    case True
    then show ?thesis
      by (cases "index k"; cases "filter (\<lambda>f. key f = k) flows") (simp_all add: Cons.IH)
  next
    case False
    then show ?thesis
      by (cases "index (key flow)") (simp_all add: Cons.IH cong: list.case_cong)
  qed
qed

lemma getOutgoingSequenceFlows_filter:
  "getOutgoingSequenceFlows pd fo = filter (\<lambda>f. sourceRef f = bpmnId fo) (sequenceFlows pd)"
  using fold_flow_index [of sourceRef "sequenceFlows pd" Map.empty "bpmnId fo"]
  by (simp add: getOutgoingSequenceFlows_def getFlows_def buildFlowIndex_def Let_def
      split: list.splits)

lemma getIncomingSequenceFlows_filter:
  "getIncomingSequenceFlows pd fo = filter (\<lambda>f. targetRef f = bpmnId fo) (sequenceFlows pd)"
  using fold_flow_index [of targetRef "sequenceFlows pd" Map.empty "bpmnId fo"]
  by (simp add: getIncomingSequenceFlows_def getFlows_def buildFlowIndex_def Let_def
      split: list.splits)

text \<open>
  C1. An exclusive gateway ends its history entry and then looks at its outgoing flows in
  the order of the definition. With more than one flow it asks the handlers
  \<open>gateway$flow\<close> in that order up to the first that returns a truthy value, emits
  one token along that flow and asks no further handler; if no handler returns a
  truthy value, all have been asked and no token is emitted. With one flow the token is
  emitted along it and no handler is asked.
\<close>

theorem C1_exclusive_gateway:
  assumes "foKind gw = ExclusiveGateway"
  shows "emitTokens put env gw data returning p =
     (let outs = filter (\<lambda>f. sourceRef f = bpmnId gw) (sequenceFlows (processDefinition env))
      in onFlowObjectEnd env (foName gw) data
           (\<lambda>p1. if length outs > 1
                 then (case dropWhile (\<lambda>f. \<not> branchHolds env gw data f) outs of
                         [] \<Rightarrow> (Normal, foldl (askBranch env gw data) p1 outs)
                       | w # rest \<Rightarrow>
                           emitTokenAlong put env gw w data
                             (foldl (askBranch env gw data) p1
                                (takeWhile (\<lambda>f. \<not> branchHolds env gw data f) outs @ [w])))
                 else (case outs of
                         [] \<Rightarrow> (Normal, p1)
                       | f # others \<Rightarrow> emitTokenAlong put env gw f data p1))
           p)"
proof -
  let ?outs = "filter (\<lambda>f. sourceRef f = bpmnId gw) (sequenceFlows (processDefinition env))"
  have outs: "getOutgoingSequenceFlows (processDefinition env) gw = ?outs"
    by (rule getOutgoingSequenceFlows_filter)
  have single: "exclusiveGateway_iter put env gw False data ?outs False =
      (\<lambda>p1. case ?outs of [] \<Rightarrow> (Normal, p1) | f # others \<Rightarrow> emitTokenAlong put env gw f data p1)"
    if "\<not> length ?outs > 1"
  proof (cases ?outs)
    case Nil
    then show ?thesis by (simp add: fun_eq_iff)
  next
    case (Cons f others)
    with that have "others = []" by simp
    with Cons show ?thesis by (simp add: fun_eq_iff exclusiveGateway_iter_emitted_fun)
  qed
  have diverging: "exclusiveGateway_iter put env gw True data ?outs False =
      (\<lambda>p1. case dropWhile (\<lambda>f. \<not> branchHolds env gw data f) ?outs of
                         [] \<Rightarrow> (Normal, foldl (askBranch env gw data) p1 ?outs)
                       | w # rest \<Rightarrow>
                           emitTokenAlong put env gw w data
                             (foldl (askBranch env gw data) p1
                                (takeWhile (\<lambda>f. \<not> branchHolds env gw data f) ?outs @ [w])))"
    by (rule ext) (rule exclusiveGateway_iter_diverging)
  show ?thesis
  proof (cases "length ?outs > 1")
    case True
    then show ?thesis
      using assms by (simp add: emitTokens_def exclusiveGateway_emitTokens_def outs diverging)
  next
    case False
    then show ?thesis
      using assms single [OF False]
      by (simp add: emitTokens_def exclusiveGateway_emitTokens_def outs)
  qed
qed

text \<open>
  In the exclusive split, \<open>gw$toA\<close> and \<open>gw$toB\<close> are asked, the token goes to \<open>B\<close> and on
  to \<open>end\<close>, and \<open>A\<close> is never entered.
\<close>

text \<open>
  In the exclusive split, \<open>gw$toA\<close> and \<open>gw$toB\<close> are asked, the token goes to \<open>B\<close> and on
  to \<open>end\<close>, and \<open>A\<close> is never entered.
\<close>

theorem C1_witness:
  "foKind splitGateway = ExclusiveGateway \<and>
   fst (emitTokens (putTokenAt 5 splitEnv) splitEnv splitGateway Undefined False atSplitGateway)
     = Normal \<and>
   trace (snd (emitTokens (putTokenAt 5 splitEnv) splitEnv splitGateway Undefined False
                 atSplitGateway)) =
     [EndSet ''gw'', HandlerCalled ''gw$toA'' Undefined, HandlerCalled ''gw$toB'' Undefined,
      TokenEmitted ''gw'' ''toB'', TokenPut ''B'', EntryAdded ''B'', TokenArrived ''B'',
      HandlerCalled ''B'' (JObj []), EndSet ''B'', TokenEmitted ''B'' [], TokenPut ''end'',
      EntryAdded ''end'', TokenArrived ''end'',
      DefaultEventHandlerCalled ''callHandler'' ''end'' ''end'', EndSet ''end'']"
proof -
  have k: "foKind splitGateway = ExclusiveGateway"
    by (simp add: splitGateway_def mkFlowObject_def)
  have returns:
    "fst (emitTokens (putTokenAt 5 splitEnv) splitEnv splitGateway Undefined False atSplitGateway)
       = Normal"
    unfolding C1_exclusive_gateway [OF k] by code_simp
  have effects:
    "trace (snd (emitTokens (putTokenAt 5 splitEnv) splitEnv splitGateway Undefined False
                   atSplitGateway)) =
       [EndSet ''gw'', HandlerCalled ''gw$toA'' Undefined, HandlerCalled ''gw$toB'' Undefined,
        TokenEmitted ''gw'' ''toB'', TokenPut ''B'', EntryAdded ''B'', TokenArrived ''B'',
        HandlerCalled ''B'' (JObj []), EndSet ''B'', TokenEmitted ''B'' [], TokenPut ''end'',
        EntryAdded ''end'', TokenArrived ''end'',
        DefaultEventHandlerCalled ''callHandler'' ''end'' ''end'', EndSet ''end'']"
    unfolding C1_exclusive_gateway [OF k] by code_simp
  from k returns effects show ?thesis by (intro conjI)
qed

text \<open>
  C2. A parallel gateway first creates a token at its own name. If the tokens at the
  gateway are now as many as its incoming flows, it ends its history entry, removes
  the tokens at the gateway and emits one token along every outgoing flow, in the
  order of the definition; otherwise it calls \<open>persist\<close> and emits nothing.
\<close>

theorem C2_parallel_gateway:
  assumes "foKind pg = ParallelGateway"
  shows "emitTokens put env pg data returning p =
     (let arrived = p\<lparr>tokens := tokens p @ [Token (foName pg) (processId p)]\<rparr>;
          incoming = filter (\<lambda>f. targetRef f = bpmnId pg) (sequenceFlows (processDefinition env));
          outgoing = filter (\<lambda>f. sourceRef f = bpmnId pg) (sequenceFlows (processDefinition env))
      in if length (filter (\<lambda>t. position t = foName pg) (tokens arrived)) = length incoming
         then onFlowObjectEnd env (foName pg) data
                (\<lambda>p2. forEach outgoing (\<lambda>flow. emitTokenAlong put env pg flow data)
                         (p2\<lparr>tokens := filter (\<lambda>t. position t \<noteq> foName pg) (tokens p2)\<rparr>))
                arrived
         else (Normal, persist env False arrived))"
  using assms
  by (simp add: emitTokens_def parallelGateway_emitTokens_def createTokenAt_def Let_def
      numberOfTokensAt_filter removeAllTokensAt_filter getIncomingSequenceFlows_filter
      getOutgoingSequenceFlows_filter)

text \<open>
  At the join with two incoming flows, the first arrival leaves one token at \<open>join\<close> and
  a document with the store; with a token already at \<open>join\<close>, the arrival ends the
  entry of \<open>join\<close> and emits one token, to \<open>end\<close>.
\<close>

text \<open>
  At the join with two incoming flows, the first arrival leaves one token at \<open>join\<close> and
  a document with the store; with a token already at \<open>join\<close>, the arrival ends the
  entry of \<open>join\<close> and emits one token, to \<open>end\<close>.
\<close>

theorem C2_witness:
  "foKind joinGateway = ParallelGateway \<and>
   tokens (snd (emitTokens (putTokenAt 5 joinEnv) joinEnv joinGateway Undefined False firstAtJoin))
     = [Token ''B'' ''id2'', Token ''join'' ''id2''] \<and>
   map (docState \<circ> fst)
     (persisted (snd (emitTokens (putTokenAt 5 joinEnv) joinEnv joinGateway Undefined False
                        firstAtJoin)))
     = [[Token ''B'' ''id2'', Token ''join'' ''id2'']] \<and>
   trace (snd (emitTokens (putTokenAt 5 joinEnv) joinEnv joinGateway Undefined False
                 (firstAtJoin\<lparr>tokens := [Token ''join'' ''id2'']\<rparr>)))
     = [EndSet ''join'', TokenEmitted ''join'' [], TokenPut ''end'', EntryAdded ''end'',
        TokenArrived ''end'', DefaultEventHandlerCalled ''callHandler'' ''end'' ''end'',
        EndSet ''end'', PersistCalled]"
proof -
  have k: "foKind joinGateway = ParallelGateway"
    by (simp add: joinGateway_def mkFlowObject_def)
  have waiting:
    "tokens (snd (emitTokens (putTokenAt 5 joinEnv) joinEnv joinGateway Undefined False firstAtJoin))
       = [Token ''B'' ''id2'', Token ''join'' ''id2'']"
    unfolding C2_parallel_gateway [OF k] by code_simp
  have stored:
    "map (docState \<circ> fst)
       (persisted (snd (emitTokens (putTokenAt 5 joinEnv) joinEnv joinGateway Undefined False
                          firstAtJoin)))
       = [[Token ''B'' ''id2'', Token ''join'' ''id2'']]"
    unfolding C2_parallel_gateway [OF k] by code_simp
  have joined:
    "trace (snd (emitTokens (putTokenAt 5 joinEnv) joinEnv joinGateway Undefined False
                   (firstAtJoin\<lparr>tokens := [Token ''join'' ''id2'']\<rparr>)))
       = [EndSet ''join'', TokenEmitted ''join'' [], TokenPut ''end'', EntryAdded ''end'',
          TokenArrived ''end'', DefaultEventHandlerCalled ''callHandler'' ''end'' ''end'',
          EndSet ''end'', PersistCalled]"
    unfolding C2_parallel_gateway [OF k] by code_simp
  from k waiting stored joined show ?thesis by (intro conjI)
qed

section \<open>Properties of triggering a start event\<close>

lemma entryIn_History:
  "entryIn (History es c f) e \<longleftrightarrow>
     e \<in> set es \<or> (\<exists>e'\<in>set es. \<exists>h'. subhistory e' = Some h' \<and> entryIn h' e)"
  by (subst entryIn.simps) auto

lemma hasBeenVisited_entryIn:
  "hasBeenVisited_entry e n = (\<exists>h e'. subhistory e = Some h \<and> entryIn h e' \<and> entryName e' = n)"
  "hasBeenVisited_entries h n = (\<exists>e'. entryIn h e' \<and> entryName e' = n)"
proof (induction e and h)
  case (HistoryEntry x1 x2 x3 x4 x5)
  then show ?case by (cases x5) simp_all
next
  case (History x1 x2 x3)
  have "hasBeenVisited_entries (History x1 x2 x3) n \<longleftrightarrow>
        (\<exists>e\<in>set x1. entryName e = n) \<or> (\<exists>e\<in>set x1. hasBeenVisited_entry e n)"
    by (auto simp: list_ex_iff Let_def)
  also have "\<dots> \<longleftrightarrow> (\<exists>e\<in>set x1. entryName e = n) \<or>
        (\<exists>e\<in>set x1. \<exists>h e'. subhistory e = Some h \<and> entryIn h e' \<and> entryName e' = n)"
    using History by blast
  also have "\<dots> \<longleftrightarrow> (\<exists>e'. entryIn (History x1 x2 x3) e' \<and> entryName e' = n)"
    unfolding entryIn_History by blast
  finally show ?case .
qed

lemma hasBeenVisited_bearsName: "hasBeenVisited h n = bearsName h n"
  by (simp add: hasBeenVisited_def bearsName_def hasBeenVisited_entryIn)

text \<open>
  C4. For a name that resolves to a start event: if an entry of the history or of a
  sub-history bears the name, \<open>triggerEvent\<close> throws and the instance is unchanged;
  otherwise it is \<open>_putTokenAt\<close> on the start event, which creates a token there and
  then begins the flow object.
\<close>

theorem C4_trigger_start_event:
  assumes "getFlowObjectByName (processDefinition env) eventName = Inr (Some fo)"
    and "isStartEvent fo"
  shows "triggerEvent fuel env eventName data p =
           (if bearsName (history p) eventName then (Thrown AlreadyStarted, p)
            else putTokenAt fuel env fo data p) \<and>
         putTokenAt (Suc fuel) env fo data p =
           onFlowObjectBegin env fo data
             (emitEvent (putTokenAt fuel env) env TOKEN_ARRIVED_EVENT (foName fo) data)
             (log (TokenPut (foName fo))
                (p\<lparr>tokens := tokens p @ [Token (foName fo) (processId p)]\<rparr>))"
  using assms
  by (simp add: triggerEvent_def triggerEvent_with_def hasBeenVisited_bearsName
      putTokenAt_body_def createTokenAt_def Let_def)

text \<open>
  In the exclusive split, \<open>start\<close> starts a fresh instance and is refused once the history
  bears the name.
\<close>

theorem C4_witness:
  "fst (triggerEvent 10 splitEnv ''start'' Undefined (newProcess ''id1'' 900)) = Normal \<and>
   map entryName
     (historyEntries (history (snd (triggerEvent 10 splitEnv ''start'' Undefined
                                      (newProcess ''id1'' 900)))))
     = [''start'', ''gw'', ''B'', ''end''] \<and>
   triggerEvent 10 splitEnv ''start'' Undefined atSplitGateway = (Thrown AlreadyStarted, atSplitGateway)"
proof -
  have resolves: "getFlowObjectByName (processDefinition splitEnv) ''start'' =
                    Inr (Some (mkFlowObject ''1'' ''start'' ''startEvent'' StartEvent))"
    by code_simp
  have isStart: "isStartEvent (mkFlowObject ''1'' ''start'' ''startEvent'' StartEvent)"
    by code_simp
  note c4 = C4_trigger_start_event [OF resolves isStart, THEN conjunct1]
  have fresh: "\<not> bearsName (history (newProcess ''id1'' 900)) ''start''"
    by (simp add: hasBeenVisited_bearsName [symmetric] newProcess_def freshHistory_def
          hasBeenVisited_def)
  have started: "bearsName (history atSplitGateway) ''start''"
    by (simp add: hasBeenVisited_bearsName [symmetric] atSplitGateway_def newProcess_def
          hasBeenVisited_def)
  have run: "triggerEvent 10 splitEnv ''start'' Undefined (newProcess ''id1'' 900) =
             putTokenAt 10 splitEnv (mkFlowObject ''1'' ''start'' ''startEvent'' StartEvent)
               Undefined (newProcess ''id1'' 900)"
    using c4 [of 10 Undefined "newProcess ''id1'' 900"] fresh by simp
  have returns: "fst (triggerEvent 10 splitEnv ''start'' Undefined (newProcess ''id1'' 900)) = Normal"
    unfolding run by code_simp
  have visited:
    "map entryName
       (historyEntries (history (snd (triggerEvent 10 splitEnv ''start'' Undefined
                                        (newProcess ''id1'' 900)))))
       = [''start'', ''gw'', ''B'', ''end'']"
    unfolding run by code_simp
  have refused: "triggerEvent 10 splitEnv ''start'' Undefined atSplitGateway =
                   (Thrown AlreadyStarted, atSplitGateway)"
    using c4 [of 10 Undefined atSplitGateway] started by simp
  from returns visited refused show ?thesis by (intro conjI)
qed

section \<open>Restoring timer events\<close>

lemma callHandler_getTimeout:
  "callHandler env (n @ handlerNameSeparator @ ''getTimeout'') Undefined noop p =
     (getTimeoutValue env n, Normal, askTimeout env n p)"
  by (simp add: callHandler_def noop_def callDefaultEventHandler_def callDefaultErrorHandler_def
        Let_def getTimeoutValue_def askTimeout_def getHandlerFromProcess_def
        mapName2HandlerName_canonical handlerNameSeparator_def
      split: option.splits handler.splits behaviour.splits)

lemma addTimerEvent_given:
  assumes "\<not> isNaN (getTimeoutValue env (foName te))"
  shows "addTimerEvent put env cb te (Some t) p =
     (let stored = (askTimeout env (foName te) p)
                     \<lparr>pendingTimeouts :=
                        objSet (foName te) t (pendingTimeouts (askTimeout env (foName te) p))\<rparr>
      in if at t - now env > 0
         then (Normal,
               stored\<lparr>setTimeoutIds :=
                        objSet (foName te) \<lparr>callback = cb, timerEvent = te, delay = at t - now env\<rparr>
                          (setTimeoutIds stored)\<rparr>)
         else timeoutEventHandler put env cb te stored)"
  using assms by (simp add: addTimerEvent_def callHandler_getTimeout Let_def)

lemma objGet_objSet: "objGet (objSet k v obj) k = Some v"
proof (cases "k \<in> set (map fst obj)")
  case True
  then have "map_of (map (\<lambda>(k', v'). if k' = k then (k', v) else (k', v')) obj) k = Some v"
    by (induction obj) auto
  with True show ?thesis by (simp add: objGet_def objSet_def)
next
  case False
  then have "map_of obj k = None" by (simp add: map_of_eq_None_iff)
  with False show ?thesis by (simp add: objGet_def objSet_def map_add_def)
qed

lemma forEach_cong:
  assumes "\<And>x q. x \<in> set xs \<Longrightarrow> f x q = g x q"
  shows "forEach xs f p = forEach xs g p"
  using assms
proof (induction xs arbitrary: p)
  case Nil
  then show ?case by simp
next
  case (Cons x xs)
  have "forEach xs f = forEach xs g"
    using Cons by (intro ext) simp
  with Cons.prems show ?case by simp
qed

lemma restoreTimerEvents_Cons:
  assumes "n \<notin> set (map fst others)"
  shows "restoreTimerEvents put env ((n, t) # others) p =
     andThen
       (case getFlowObjectByName (processDefinition env) n of
          Inl e \<Rightarrow> (Thrown e, p)
        | Inr None \<Rightarrow> (Thrown TypeError, p)
        | Inr (Some te) \<Rightarrow> addTimerEvent put env (callbackOf te) te (Some t) p)
       (restoreTimerEvents put env others)"
proof -
  have get: "objGet ((n, t) # others) k = objGet others k" if "k \<in> fst ` set others" for k
    using that assms by (auto simp: objGet_def)
  have "forEach (map fst others)
          (\<lambda>timerEventName p'.
             case getFlowObjectByName (processDefinition env) timerEventName of
               Inl e \<Rightarrow> (Thrown e, p')
             | Inr None \<Rightarrow> (Thrown TypeError, p')
             | Inr (Some timerEv) \<Rightarrow>
                 if isIntermediateCatchEvent timerEv
                 then addIntermediateTimerEvent put env timerEv (objGet ((n, t) # others) timerEventName) p'
                 else addBoundaryTimerEvent put env timerEv (objGet ((n, t) # others) timerEventName) p')
        = restoreTimerEvents put env others"
    unfolding restoreTimerEvents_def
    by (intro ext forEach_cong) (simp add: get cong: sum.case_cong option.case_cong if_cong)
  then show ?thesis
    by (simp add: restoreTimerEvents_def objGet_def callbackOf_def addIntermediateTimerEvent_def
          addBoundaryTimerEvent_def split: sum.splits option.splits)
qed

text \<open>
  Claim C7. \<open>restoreTimerEvents\<close> goes through the persisted entries in key order. For
  an entry \<open>(n, t)\<close> whose name resolves to the timer event \<open>te\<close> and whose
  \<open>getTimeout\<close> handler returns a number, it stores the persisted timeout \<open>t\<close> itself
  under the name, computes \<open>at t - now\<close>, and if that is positive schedules the timer
  callback with this delay, otherwise runs the timer callback at once; then it goes on with the other entries. In both cases the state in which the callback is scheduled or run
  holds \<open>t\<close> under the name of the timer event.
\<close>

theorem C7_restore_timer:
  assumes "getFlowObjectByName (processDefinition env) n = Inr (Some te)"
    and "\<not> isNaN (getTimeoutValue env (foName te))"
    and "n \<notin> set (map fst others)"
  shows
    "(let stored = (askTimeout env (foName te) p)
                     \<lparr>pendingTimeouts :=
                        objSet (foName te) t (pendingTimeouts (askTimeout env (foName te) p))\<rparr>
      in restoreTimerEvents put env ((n, t) # others) p =
           andThen
             (if at t - now env > 0
              then (Normal,
                    stored\<lparr>setTimeoutIds :=
                             objSet (foName te)
                               \<lparr>callback = callbackOf te, timerEvent = te, delay = at t - now env\<rparr>
                               (setTimeoutIds stored)\<rparr>)
              else timeoutEventHandler put env (callbackOf te) te stored)
             (restoreTimerEvents put env others) \<and>
         objGet (pendingTimeouts stored) (foName te) = Some t)"
  using assms
  by (simp add: restoreTimerEvents_Cons addTimerEvent_given Let_def objGet_objSet)

theorem C7_witness:
  "getFlowObjectByName (processDefinition (timerEnv 4980)) ''BT'' = Inr (Some boundaryTimer) \<and>
   isNaN (getTimeoutValue (timerEnv 4980) (foName boundaryTimer)) = False \<and>
   distinct (map fst [(''BT'', dueAt5000)]) \<and>
   fst (restoreTimerEvents (putTokenAt 10 (timerEnv 4980)) (timerEnv 4980) [(''BT'', dueAt5000)] loading) = Normal \<and>
   setTimeoutIds (snd (restoreTimerEvents (putTokenAt 10 (timerEnv 4980)) (timerEnv 4980)
                    [(''BT'', dueAt5000)] loading)) =
     [(''BT'', \<lparr>callback = BoundaryTimerCallback, timerEvent = boundaryTimer, delay = 20\<rparr>)] \<and>
   pendingTimeouts (snd (restoreTimerEvents (putTokenAt 10 (timerEnv 4980)) (timerEnv 4980)
                    [(''BT'', dueAt5000)] loading)) = [(''BT'', dueAt5000)] \<and>
   trace (snd (restoreTimerEvents (putTokenAt 10 (timerEnv 4980)) (timerEnv 4980)
                    [(''BT'', dueAt5000)] loading)) = [HandlerCalled ''BT$getTimeout'' Undefined] \<and>
   setTimeoutIds (snd (restoreTimerEvents (putTokenAt 10 (timerEnv 6000)) (timerEnv 6000)
                    [(''BT'', dueAt5000)] loading)) = [] \<and>
   trace (snd (restoreTimerEvents (putTokenAt 10 (timerEnv 6000)) (timerEnv 6000)
                    [(''BT'', dueAt5000)] loading)) =
     [HandlerCalled ''BT$getTimeout'' Undefined, TokenPut ''BT'', EntryAdded ''BT'']"
proof -
  have resolves: "getFlowObjectByName (processDefinition (timerEnv 4980)) ''BT'' = Inr (Some boundaryTimer)"
    by code_simp
  have number: "\<not> isNaN (getTimeoutValue (timerEnv 4980) (foName boundaryTimer))"
    by code_simp
  have fresh: "''BT'' \<notin> set (map fst ([] :: (string \<times> timeout) list))"
    by simp
  note restored = C7_restore_timer [OF resolves number fresh,
      where put = "putTokenAt 10 (timerEnv 4980)" and p = loading and t = dueAt5000,
      unfolded Let_def, THEN conjunct1]
  have returns: "fst (restoreTimerEvents (putTokenAt 10 (timerEnv 4980)) (timerEnv 4980)
                    [(''BT'', dueAt5000)] loading) = Normal"
    unfolding restored by code_simp
  have scheduled: "setTimeoutIds (snd (restoreTimerEvents (putTokenAt 10 (timerEnv 4980)) (timerEnv 4980)
                    [(''BT'', dueAt5000)] loading)) =
     [(''BT'', \<lparr>callback = BoundaryTimerCallback, timerEvent = boundaryTimer, delay = 20\<rparr>)]"
    unfolding restored by code_simp
  have pending: "pendingTimeouts (snd (restoreTimerEvents (putTokenAt 10 (timerEnv 4980)) (timerEnv 4980)
                    [(''BT'', dueAt5000)] loading)) = [(''BT'', dueAt5000)]"
    unfolding restored by code_simp
  have asked: "trace (snd (restoreTimerEvents (putTokenAt 10 (timerEnv 4980)) (timerEnv 4980)
                    [(''BT'', dueAt5000)] loading)) = [HandlerCalled ''BT$getTimeout'' Undefined]"
    unfolding restored by code_simp
  have resolves': "getFlowObjectByName (processDefinition (timerEnv 6000)) ''BT'' = Inr (Some boundaryTimer)"
    by code_simp
  have number': "\<not> isNaN (getTimeoutValue (timerEnv 6000) (foName boundaryTimer))"
    by code_simp
  note fired = C7_restore_timer [OF resolves' number' fresh,
      where put = "putTokenAt 10 (timerEnv 6000)" and p = loading and t = dueAt5000,
      unfolded Let_def, THEN conjunct1]
  have unscheduled: "setTimeoutIds (snd (restoreTimerEvents (putTokenAt 10 (timerEnv 6000)) (timerEnv 6000)
                    [(''BT'', dueAt5000)] loading)) = []"
    unfolding fired by code_simp
  have put: "trace (snd (restoreTimerEvents (putTokenAt 10 (timerEnv 6000)) (timerEnv 6000)
                    [(''BT'', dueAt5000)] loading)) =
     [HandlerCalled ''BT$getTimeout'' Undefined, TokenPut ''BT'', EntryAdded ''BT'']"
    unfolding fired by code_simp
  from resolves number returns scheduled pending asked unscheduled put show ?thesis
    by (intro conjI) simp_all
qed

section \<open>Sending a message twice\<close>








text \<open>A key with three dots comes from one tuple only.\<close>

lemma dots_append:
  "length (filter (\<lambda>c. c = CHR ''.'') (a @ CHR ''.'' # x)) =
     length (filter (\<lambda>c. c = CHR ''.'') a) + 1 + length (filter (\<lambda>c. c = CHR ''.'') x)"
  by simp







section \<open>Persisting and loading\<close>

lemma orNull_clock: "e \<noteq> Some 0 \<Longrightarrow> orNull e = e"
  by (cases e) auto

lemma copy_clock:
  "clockEntry e \<Longrightarrow> copyEntry ts e = e"
  "clockHistory h \<Longrightarrow> copyHistory ts h = h"
proof (induction e and h)
  case (HistoryEntry n ty b e sub)
  then show ?case
    by (cases sub) (auto simp: orNull_clock)
next
  case (History entries created finished)
  then have "map (copyEntry ts) entries = entries"
    by (induction entries) (auto simp: list_all_iff)
  with History.prems show ?case
    by (simp add: orNull_clock)
qed

lemma askTimeout_number:
  assumes "\<not> isNaN (getTimeoutValue env n)"
  shows "askTimeout env n p =
           log (HandlerCalled (mapName2HandlerName (n @ ''$getTimeout'')) Undefined) p"
  using assms
  by (auto simp: askTimeout_def getTimeoutValue_def callHandler_def getHandlerFromProcess_def
        mapName2HandlerName_canonical noop_def Let_def
      split: option.splits handler.splits behaviour.splits)

lemma objSet_fresh: "k \<notin> set (map fst obj) \<Longrightarrow> objSet k v obj = obj @ [(k, v)]"
  by (simp add: objSet_def)

lemma restoreTimerEvents_ahead:
  assumes "distinct (map fst ts)"
    and "list_all (\<lambda>e. restorable env e \<and> ahead env e) ts"
    and "set (map fst ts) \<inter> set (map fst (pendingTimeouts p)) = {}"
    and "map fst (setTimeoutIds p) = map fst (pendingTimeouts p)"
  shows "fst (restoreTimerEvents put env ts p) = Normal \<and>
         pendingTimeouts (snd (restoreTimerEvents put env ts p)) = pendingTimeouts p @ ts \<and>
         setTimeoutIds (snd (restoreTimerEvents put env ts p)) =
           setTimeoutIds p @ map (rescheduled env) ts \<and>
         tokens (snd (restoreTimerEvents put env ts p)) = tokens p \<and>
         history (snd (restoreTimerEvents put env ts p)) = history p \<and>
         properties (snd (restoreTimerEvents put env ts p)) = properties p"
  using assms
proof (induction ts arbitrary: p)
  case Nil
  then show ?case by (simp add: restoreTimerEvents_def)
next
  case (Cons entry ts)
  obtain n t where entry: "entry = (n, t)" by (cases entry)
  from Cons.prems entry obtain te where
    te: "getFlowObjectByName (processDefinition env) n = Inr (Some te)" "foName te = n"
    and number: "\<not> isNaN (getTimeoutValue env n)" and later: "at t - now env > 0"
    by (auto simp: restorable_def ahead_def split: sum.splits option.splits)
  from Cons.prems entry have fresh: "n \<notin> set (map fst ts)" "n \<notin> set (map fst (pendingTimeouts p))"
    by auto
  with Cons.prems have fresh': "n \<notin> set (map fst (setTimeoutIds p))"
    by simp
  define a where "a = HandlerCalled (mapName2HandlerName (n @ ''$getTimeout'')) Undefined"
  define p' where "p' = (log a p)
      \<lparr>pendingTimeouts := pendingTimeouts p @ [(n, t)],
        setTimeoutIds := setTimeoutIds p @ [rescheduled env (n, t)]\<rparr>"
  have step: "restoreTimerEvents put env (entry # ts) p = restoreTimerEvents put env ts p'"
    using te number later fresh fresh'
    by (simp add: entry restoreTimerEvents_Cons addTimerEvent_given askTimeout_number Let_def
          objSet_fresh log_def p'_def a_def rescheduled_def)
  have "fst (restoreTimerEvents put env ts p') = Normal \<and>
         pendingTimeouts (snd (restoreTimerEvents put env ts p')) = pendingTimeouts p' @ ts \<and>
         setTimeoutIds (snd (restoreTimerEvents put env ts p')) =
           setTimeoutIds p' @ map (rescheduled env) ts \<and>
         tokens (snd (restoreTimerEvents put env ts p')) = tokens p' \<and>
         history (snd (restoreTimerEvents put env ts p')) = history p' \<and>
         properties (snd (restoreTimerEvents put env ts p')) = properties p'"
  proof (rule Cons.IH)
    show "distinct (map fst ts)" using Cons.prems by simp
    show "list_all (\<lambda>e. restorable env e \<and> ahead env e) ts" using Cons.prems by simp
    show "set (map fst ts) \<inter> set (map fst (pendingTimeouts p')) = {}"
      using Cons.prems fresh by (auto simp: p'_def log_def entry)
    show "map fst (setTimeoutIds p') = map fst (pendingTimeouts p')"
      using Cons.prems by (simp add: p'_def log_def rescheduled_def)
  qed
  then show ?case
    unfolding step by (simp add: p'_def log_def entry)
qed

lemma persist_document:
  assumes "persistency env"
  shows "fst (last (persisted (persist env closeConnection p))) = persistentData env p"
  using assms by (simp add: persist_def log_def)

text \<open>
  Claim C3, for timers that are still ahead and timestamps that are not \<open>0\<close>. The store
  hands back the document it was given, and an object holds each key once. Let no
  timestamp in the history of the instance be \<open>0\<close>, and let every pending timeout, at
  the time of loading, resolve by its name to its timer event, have a \<open>getTimeout\<close>
  handler that returns a number, and lie ahead of the clock. Then loading the persisted
  document into an instance returns, and the instance has the tokens (substates
  included), the history (subhistories, \<open>createdAt\<close> and \<open>finishedAt\<close> included), the
  properties and the pending timeouts (with their \<open>at\<close>) of the persisted one; the timers
  are rescheduled with the delay \<open>at - now\<close>.
\<close>

theorem C3_persist_load_round_trip:
  assumes "persistency env0"
    and "clockHistory (history p)"
    and "distinct (map fst (pendingTimeouts p))"
    and "list_all (\<lambda>e. restorable env e \<and> ahead env e) (pendingTimeouts p)"
  shows
    "(let doc = fst (last (persisted (persist env0 closeConnection p)));
          loaded = setPersistedData fuel env doc q
      in fst loaded = Normal \<and>
         tokens (snd loaded) = tokens p \<and>
         history (snd loaded) = history p \<and>
         properties (snd loaded) = properties p \<and>
         pendingTimeouts (snd loaded) = pendingTimeouts p \<and>
         setTimeoutIds (snd loaded) = map (rescheduled env) (pendingTimeouts p))"
proof -
  define q1 where "q1 = q\<lparr>tokens := tokens p, history := history p,
                           pendingTimeouts := [], setTimeoutIds := []\<rparr>"
  define r where "r = restoreTimerEvents (putTokenAt fuel env) env (pendingTimeouts p) q1"
  have restored: "fst r = Normal \<and>
         pendingTimeouts (snd r) = pendingTimeouts q1 @ pendingTimeouts p \<and>
         setTimeoutIds (snd r) = setTimeoutIds q1 @ map (rescheduled env) (pendingTimeouts p) \<and>
         tokens (snd r) = tokens q1 \<and>
         history (snd r) = history q1 \<and>
         properties (snd r) = properties q1"
    unfolding r_def
    by (rule restoreTimerEvents_ahead) (use assms in \<open>simp_all add: q1_def\<close>)
  have loaded: "setPersistedData fuel env (persistentData env0 p) q =
                  andThen r (\<lambda>p2. (Normal, p2\<lparr>properties := properties p\<rparr>))"
    using assms(2)
    by (simp add: setPersistedData_def setPersistedData_with_def persistentData_def Let_def
          copy_clock r_def q1_def)
  obtain p2 where r: "r = (Normal, p2)"
    using restored by (cases r) auto
  from restored show ?thesis
    by (simp add: persist_document [OF assms(1)] loaded r Let_def q1_def)
qed

theorem C3_witness:
  "persistency (timerEnv 4950) \<and>
   clockHistory (history waitingAtW) \<and>
   distinct (map fst (pendingTimeouts waitingAtW)) \<and>
   list_all (\<lambda>e. restorable (timerEnv 4980) e \<and> ahead (timerEnv 4980) e)
     (pendingTimeouts waitingAtW) \<and>
   tokens (snd (setPersistedData 10 (timerEnv 4980)
                  (fst (last (persisted (persist (timerEnv 4950) False waitingAtW)))) loading)) =
     [Token ''W'' ''id3''] \<and>
   pendingTimeouts (snd (setPersistedData 10 (timerEnv 4980)
                  (fst (last (persisted (persist (timerEnv 4950) False waitingAtW)))) loading)) =
     [(''BT'', dueAt5000)] \<and>
   setTimeoutIds (snd (setPersistedData 10 (timerEnv 4980)
                  (fst (last (persisted (persist (timerEnv 4950) False waitingAtW)))) loading)) =
     [(''BT'', \<lparr>callback = BoundaryTimerCallback, timerEvent = boundaryTimer, delay = 20\<rparr>)]"
proof -
  have store: "persistency (timerEnv 4950)"
    by code_simp
  have clock: "clockHistory (history waitingAtW)"
    by code_simp
  have keys: "distinct (map fst (pendingTimeouts waitingAtW))"
    by code_simp
  have timers: "list_all (\<lambda>e. restorable (timerEnv 4980) e \<and> ahead (timerEnv 4980) e)
     (pendingTimeouts waitingAtW)"
    by code_simp
  note loaded = C3_persist_load_round_trip [OF store clock keys timers,
      where closeConnection = False and fuel = 10 and q = loading, unfolded Let_def]
  have state: "tokens waitingAtW = [Token ''W'' ''id3'']"
    by code_simp
  have pending: "pendingTimeouts waitingAtW = [(''BT'', dueAt5000)]"
    by code_simp
  have scheduled: "map (rescheduled (timerEnv 4980)) (pendingTimeouts waitingAtW) =
     [(''BT'', \<lparr>callback = BoundaryTimerCallback, timerEvent = boundaryTimer, delay = 20\<rparr>)]"
    by code_simp
  from loaded state pending scheduled store clock keys timers show ?thesis
    by (intro conjI) simp_all
qed

theorem C3_counterexample:
  "persistency (timerEnv 4950) \<and>
   fst (setPersistedData 10 (timerEnv 6000)
          (fst (last (persisted (persist (timerEnv 4950) False waitingAtW)))) loading) = Normal \<and>
   pendingTimeouts waitingAtW = [(''BT'', dueAt5000)] \<and>
   pendingTimeouts (snd (setPersistedData 10 (timerEnv 6000)
                  (fst (last (persisted (persist (timerEnv 4950) False waitingAtW)))) loading)) = [] \<and>
   tokens waitingAtW = [Token ''W'' ''id3''] \<and>
   tokens (snd (setPersistedData 10 (timerEnv 6000)
                  (fst (last (persisted (persist (timerEnv 4950) False waitingAtW)))) loading)) =
     [Token ''W'' ''id3'', Token ''BT'' ''id3''] \<and>
   map entryName (historyEntries (history waitingAtW)) = [''start'', ''W''] \<and>
   map entryName (historyEntries (history (snd (setPersistedData 10 (timerEnv 6000)
                  (fst (last (persisted (persist (timerEnv 4950) False waitingAtW)))) loading)))) =
     [''start'', ''W'', ''BT''] \<and>
   pendingTimeouts ranAtZero = [] \<and>
   map (\<lambda>e. (entryName e, entryBegin e, entryEnd e)) (historyEntries (history ranAtZero)) =
     [(''start'', 0, Some 0), (''gw'', 0, Some 0), (''B'', 0, Some 0), (''end'', 0, Some 0)] \<and>
   map (\<lambda>e. (entryName e, entryBegin e, entryEnd e))
     (historyEntries (history (snd (setPersistedData 10 (splitStore 5)
        (fst (last (persisted ranAtZero))) (newProcess ''id1'' 5))))) =
     [(''start'', 5, None), (''gw'', 5, None), (''B'', 5, None), (''end'', 5, None)]"
proof -
  have store: "persistency (timerEnv 4950)"
    by code_simp
  have returns: "fst (setPersistedData 10 (timerEnv 6000)
          (fst (last (persisted (persist (timerEnv 4950) False waitingAtW)))) loading) = Normal"
    by code_simp
  have pending: "pendingTimeouts waitingAtW = [(''BT'', dueAt5000)]"
    by code_simp
  have fired: "pendingTimeouts (snd (setPersistedData 10 (timerEnv 6000)
                  (fst (last (persisted (persist (timerEnv 4950) False waitingAtW)))) loading)) = []"
    by code_simp
  have state: "tokens waitingAtW = [Token ''W'' ''id3'']"
    by code_simp
  have moved: "tokens (snd (setPersistedData 10 (timerEnv 6000)
                  (fst (last (persisted (persist (timerEnv 4950) False waitingAtW)))) loading)) =
     [Token ''W'' ''id3'', Token ''BT'' ''id3'']"
    by code_simp
  have visited: "map entryName (historyEntries (history waitingAtW)) = [''start'', ''W'']"
    by code_simp
  have grown: "map entryName (historyEntries (history (snd (setPersistedData 10 (timerEnv 6000)
                  (fst (last (persisted (persist (timerEnv 4950) False waitingAtW)))) loading)))) =
     [''start'', ''W'', ''BT'']"
    by code_simp
  have none: "pendingTimeouts ranAtZero = []"
    by code_simp
  have zero: "map (\<lambda>e. (entryName e, entryBegin e, entryEnd e)) (historyEntries (history ranAtZero)) =
     [(''start'', 0, Some 0), (''gw'', 0, Some 0), (''B'', 0, Some 0), (''end'', 0, Some 0)]"
    by code_simp
  have reread: "map (\<lambda>e. (entryName e, entryBegin e, entryEnd e))
     (historyEntries (history (snd (setPersistedData 10 (splitStore 5)
        (fst (last (persisted ranAtZero))) (newProcess ''id1'' 5))))) =
     [(''start'', 5, None), (''gw'', 5, None), (''B'', 5, None), (''end'', 5, None)]"
    by code_simp
  from store returns pending fired state moved visited grown none zero reread show ?thesis
    by (intro conjI)
qed

section \<open>The order of history entries, handlers and tokens\<close>

lemma inOrder_snoc:
  "inOrder earlier (xs @ [a]) =
     (inOrder earlier xs \<and> list_all (\<lambda>b. b \<in> set earlier \<union> set xs) (needs a))"
  by (induction xs arbitrary: earlier) (auto simp: list_all_iff)

lemma announced_mono: "announced tr ev \<Longrightarrow> announced (tr @ later) ev"
  by (cases ev) auto

lemma wellOrdered_log:
  assumes "wellOrdered p"
    and "list_all (\<lambda>b. b \<in> set (trace p)) (needs a)"
    and "reflected (history p) a"
  shows "wellOrdered (log a p)"
  using assms
  by (auto simp: wellOrdered_def log_def inOrder_snoc list_all_iff announced_mono)

lemma laterNamesake_iff:
  "laterNamesake entries j \<longleftrightarrow>
     (\<exists>k. j < k \<and> k < length entries \<and> entryName (entries ! k) = entryName (entries ! j))"
proof
  assume "laterNamesake entries j"
  then obtain e where e: "e \<in> set (drop (Suc j) entries)" "entryName e = entryName (entries ! j)"
    by (auto simp: laterNamesake_def list_ex_iff)
  then obtain i where i: "i < length (drop (Suc j) entries)" "drop (Suc j) entries ! i = e"
    by (auto simp: in_set_conv_nth)
  then have "j < Suc j + i" "Suc j + i < length entries" "entries ! (Suc j + i) = e"
    by auto
  with e(2) show "\<exists>k. j < k \<and> k < length entries \<and> entryName (entries ! k) = entryName (entries ! j)"
    by blast
next
  assume "\<exists>k. j < k \<and> k < length entries \<and> entryName (entries ! k) = entryName (entries ! j)"
  then obtain k where k: "j < k" "k < length entries"
    "entryName (entries ! k) = entryName (entries ! j)"
    by blast
  then have "k - Suc j < length (drop (Suc j) entries)" "drop (Suc j) entries ! (k - Suc j) = entries ! k"
    by auto
  then have "entries ! k \<in> set (drop (Suc j) entries)"
    by (metis nth_mem)
  with k(3) show "laterNamesake entries j"
    by (auto simp: laterNamesake_def list_ex_iff)
qed

lemma keepsHistory_iff:
  "keepsHistory h h' \<longleftrightarrow>
     length (historyEntries h) \<le> length (historyEntries h') \<and>
     createdAt h' = createdAt h \<and>
     (\<forall>j < length (historyEntries h).
        entryName (historyEntries h' ! j) = entryName (historyEntries h ! j) \<and>
        entryType (historyEntries h' ! j) = entryType (historyEntries h ! j) \<and>
        entryBegin (historyEntries h' ! j) = entryBegin (historyEntries h ! j) \<and>
        subhistory (historyEntries h' ! j) = subhistory (historyEntries h ! j) \<and>
        (entryEnd (historyEntries h' ! j) = entryEnd (historyEntries h ! j) \<or>
         \<not> laterNamesake (historyEntries h) j))"
  by (auto simp: keepsHistory_def list_all_iff)

lemma keepsHistory_refl: "keepsHistory h h"
  by (simp add: keepsHistory_iff)

lemma keepsHistory_trans:
  assumes "keepsHistory h h'" and "keepsHistory h' h''"
  shows "keepsHistory h h''"
proof -
  have later: "laterNamesake (historyEntries h') j"
    if "laterNamesake (historyEntries h) j" and "j < length (historyEntries h)" for j
  proof -
    from that(1) obtain k where k: "j < k" "k < length (historyEntries h)"
      "entryName (historyEntries h ! k) = entryName (historyEntries h ! j)"
      by (auto simp: laterNamesake_iff)
    with assms(1) that(2) have "k < length (historyEntries h')"
      "entryName (historyEntries h' ! k) = entryName (historyEntries h' ! j)"
      by (auto simp: keepsHistory_iff)
    with k(1) show ?thesis by (auto simp: laterNamesake_iff)
  qed
  show ?thesis
    unfolding keepsHistory_iff
  proof (intro conjI allI impI)
    fix j
    assume j: "j < length (historyEntries h)"
    with assms(1) have j': "j < length (historyEntries h')"
      by (auto simp: keepsHistory_iff)
    from assms j j' show "entryName (historyEntries h'' ! j) = entryName (historyEntries h ! j)"
      "entryType (historyEntries h'' ! j) = entryType (historyEntries h ! j)"
      "entryBegin (historyEntries h'' ! j) = entryBegin (historyEntries h ! j)"
      "subhistory (historyEntries h'' ! j) = subhistory (historyEntries h ! j)"
      by (simp_all add: keepsHistory_iff)
    show "entryEnd (historyEntries h'' ! j) = entryEnd (historyEntries h ! j) \<or>
          \<not> laterNamesake (historyEntries h) j"
    proof (cases "laterNamesake (historyEntries h) j")
      case True
      from True j have "laterNamesake (historyEntries h') j" by (rule later)
      with assms(2) j' have "entryEnd (historyEntries h'' ! j) = entryEnd (historyEntries h' ! j)"
        by (auto simp: keepsHistory_iff)
      moreover from assms(1) j True
      have "entryEnd (historyEntries h' ! j) = entryEnd (historyEntries h ! j)"
        by (auto simp: keepsHistory_iff)
      ultimately show ?thesis by simp
    qed simp
  qed (use assms in \<open>auto simp: keepsHistory_iff\<close>)
qed

lemma grows_refl: "grows p p"
  by (simp add: grows_def keepsHistory_refl)

lemma grows_trans: "grows p q \<Longrightarrow> grows q r \<Longrightarrow> grows p r"
  by (auto simp: grows_def intro: keepsHistory_trans)

lemma grows_mem: "grows p q \<Longrightarrow> a \<in> set (trace p) \<Longrightarrow> a \<in> set (trace q)"
  by (auto simp: grows_def dest: set_mono_prefix)

lemma grows_log:
  assumes "list_all (\<lambda>b. b \<in> set (trace p)) (needs a)" and "reflected (history p) a"
  shows "grows p (log a p)"
  using assms by (simp add: grows_def wellOrdered_log) (simp add: log_def keepsHistory_refl)

lemma grows_silent:
  assumes "trace q = trace p" and "history q = history p"
    and "deferredEvents q = deferredEvents p" and "nextTicks q = nextTicks p"
  shows "grows p q"
  using assms by (simp add: grows_def wellOrdered_def keepsHistory_refl)

lemma grows_andThen:
  assumes "grows p (snd r)" and "\<And>q. grows p q \<Longrightarrow> grows q (snd (G q))"
  shows "grows p (snd (andThen r G))"
proof (cases r)
  case (Pair out q)
  with assms(1) have q: "grows p q" by simp
  show ?thesis
  proof (cases out)
    case Normal
    with Pair q assms(2) [OF q] show ?thesis
      by (auto simp: andThen_def intro: grows_trans)
  qed (use Pair q in \<open>simp_all add: andThen_def\<close>)
qed

lemma grows_forEach:
  assumes "\<And>x q. x \<in> set xs \<Longrightarrow> grows p q \<Longrightarrow> grows q (snd (f x q))"
  shows "grows p (snd (forEach xs f p))"
  using assms
proof (induction xs arbitrary: p)
  case Nil
  then show ?case by (simp add: grows_refl)
next
  case (Cons x xs)
  have first: "grows p (snd (f x p))"
    by (rule Cons.prems) (simp_all add: grows_refl)
  have rest: "grows q (snd (forEach xs f q))" if "grows p q" for q
  proof (rule Cons.IH)
    fix y q'
    assume "y \<in> set xs" and "grows q q'"
    with that show "grows q' (snd (f y q'))"
      by (intro Cons.prems) (auto intro: grows_trans)
  qed
  from first rest show ?case
    by (simp add: grows_andThen)
qed

lemma grows_callDefaultEventHandler:
  assumes "\<And>d q. grows p q \<Longrightarrow> grows q (snd (done d q))"
  shows "grows p (snd (callDefaultEventHandler env evType n h done p))"
proof -
  let ?p1 = "log (DefaultEventHandlerCalled evType n h) p"
  have "grows p ?p1" by (rule grows_log) simp_all
  moreover from this have "grows ?p1 (snd (done Undefined ?p1))" by (rule assms)
  ultimately show ?thesis
    by (auto simp: callDefaultEventHandler_def Let_def intro: grows_trans)
qed

lemma grows_callDefaultErrorHandler:
  assumes "\<And>d q. grows p q \<Longrightarrow> grows q (snd (done d q))"
  shows "grows p (snd (callDefaultErrorHandler env done p))"
proof -
  let ?p1 = "log DefaultErrorHandlerCalled p"
  have "grows p ?p1" by (rule grows_log) simp_all
  moreover from this have "grows ?p1 (snd (done Undefined ?p1))" by (rule assms)
  ultimately show ?thesis
    by (auto simp: callDefaultErrorHandler_def Let_def intro: grows_trans)
qed

lemma grows_callHandler:
  assumes "\<And>d q. grows p q \<Longrightarrow> grows q (snd (done d q))"
  shows "grows p (snd (snd (callHandler env n data done p)))"
proof (cases "getHandlerFromProcess n env")
  case None
  then show ?thesis
    by (simp add: callHandler_def grows_callDefaultEventHandler assms)
next
  case (Some h)
  show ?thesis
  proof (cases h)
    case (HFunction f)
    let ?p1 = "log (HandlerCalled (mapName2HandlerName n) data) p"
    have p1: "grows p ?p1" by (rule grows_log) simp_all
    show ?thesis
    proof (cases "f data")
      case (CallsDone d r)
      obtain out p2 where run: "done d ?p1 = (out, p2)" by (cases "done d ?p1")
      from assms [OF p1, of d] run have "grows ?p1 p2" by simp
      with p1 have p2: "grows p p2" by (rule grows_trans)
      have "grows p2 (snd (callDefaultErrorHandler env done p2))"
        by (rule grows_callDefaultErrorHandler) (auto intro: assms grows_trans [OF p2])
      with p2 have "grows p (snd (callDefaultErrorHandler env done p2))"
        by (rule grows_trans)
      with p2 show ?thesis
        by (cases out) (simp_all add: callHandler_def Some HFunction CallsDone run Let_def)
    next
      case (Returns r)
      with p1 show ?thesis
        by (simp add: callHandler_def Some HFunction Let_def)
    next
      case Raises
      have "grows ?p1 (snd (callDefaultErrorHandler env done ?p1))"
        by (rule grows_callDefaultErrorHandler) (auto intro: assms grows_trans [OF p1])
      with p1 have "grows p (snd (callDefaultErrorHandler env done ?p1))"
        by (rule grows_trans)
      then show ?thesis
        by (simp add: callHandler_def Some HFunction Raises Let_def)
    qed
  next
    case HObject
    have "grows p (snd (done Undefined p))"
      by (rule assms) (rule grows_refl)
    then show ?thesis
      by (simp add: callHandler_def Some HObject)
  next
    case HOther
    then show ?thesis
      by (simp add: callHandler_def Some grows_callDefaultEventHandler assms)
  qed
qed

lemma grows_persist: "grows p (persist env closeConnection p)"
proof (cases "persistency env")
  case True
  let ?p1 = "p\<lparr>deferEvents := True,
                persisted := persisted p @ [(persistentData env p, closeConnection)]\<rparr>"
  have "grows p ?p1" by (rule grows_silent) simp_all
  moreover have "grows ?p1 (log PersistCalled ?p1)" by (rule grows_log) simp_all
  ultimately show ?thesis
    using True by (auto simp: persist_def intro: grows_trans)
qed (simp add: persist_def grows_refl)

lemma reflected_addEntry: "reflected h a \<Longrightarrow> reflected (addEntry ts n ty h) a"
  by (cases a) (auto simp: addEntry_def list_ex_iff)

lemma reflected_added: "reflected (addEntry ts n ty h) (EntryAdded n)"
  by (simp add: addEntry_def newHistoryEntry_def)

lemma getLastEntry_loop_found:
  "getLastEntry_loop entries n k = Some i \<Longrightarrow> i < k \<and> entryName (entries ! i) = n"
  by (induction k) (auto split: if_splits)

lemma setEnd_entries:
  assumes "setEnd ts n h = Some h'"
  obtains i where "i < length (historyEntries h)" and "entryName (historyEntries h ! i) = n"
    and "historyEntries h' =
           (historyEntries h)[i := HistoryEntry n (entryType (historyEntries h ! i))
                                      (entryBegin (historyEntries h ! i)) (Some ts)
                                      (subhistory (historyEntries h ! i))]"
proof -
  from assms obtain i where i: "getLastEntryIndex h n = Some i"
    by (auto simp: setEnd_def split: option.splits)
  then have "i < length (historyEntries h) \<and> entryName (historyEntries h ! i) = n"
    unfolding getLastEntryIndex_def by (rule getLastEntry_loop_found)
  moreover from assms i this have "historyEntries h' =
           (historyEntries h)[i := HistoryEntry n (entryType (historyEntries h ! i))
                                      (entryBegin (historyEntries h ! i)) (Some ts)
                                      (subhistory (historyEntries h ! i))]"
    by (auto simp: setEnd_def Let_def)
  ultimately show ?thesis by (intro that) auto
qed

lemma reflected_setEnd:
  assumes "setEnd ts n h = Some h'" and "reflected h a"
  shows "reflected h' a"
proof -
  from assms(1) obtain i where i: "i < length (historyEntries h)"
    and name: "entryName (historyEntries h ! i) = n"
    and entries: "historyEntries h' =
           (historyEntries h)[i := HistoryEntry n (entryType (historyEntries h ! i))
                                      (entryBegin (historyEntries h ! i)) (Some ts)
                                      (subhistory (historyEntries h ! i))]"
    by (rule setEnd_entries)
  have kept: "\<exists>e' \<in> set (historyEntries h'). entryName e' = entryName e \<and>
                (entryEnd e \<noteq> None \<longrightarrow> entryEnd e' \<noteq> None)"
    if "e \<in> set (historyEntries h)" for e
  proof -
    from that obtain k where k: "k < length (historyEntries h)" "historyEntries h ! k = e"
      by (auto simp: in_set_conv_nth)
    show ?thesis
    proof (cases "k = i")
      case True
      define e' where "e' = HistoryEntry n (entryType (historyEntries h ! i))
               (entryBegin (historyEntries h ! i)) (Some ts)
               (subhistory (historyEntries h ! i))"
      from i entries have "e' \<in> set (historyEntries h')"
        by (simp add: set_update_memI e'_def)
      moreover from True k name have "entryName e' = entryName e" "entryEnd e' \<noteq> None"
        by (simp_all add: e'_def)
      ultimately show ?thesis
        by blast
    next
      case False
      with k i entries have "historyEntries h' ! k = e" "k < length (historyEntries h')"
        by auto
      then have "e \<in> set (historyEntries h')"
        by (auto simp: in_set_conv_nth)
      then show ?thesis by auto
    qed
  qed
  from assms(2) show ?thesis
    by (cases a) (auto simp: list_ex_iff dest: kept)
qed

lemma reflected_ended:
  assumes "setEnd ts n h = Some h'"
  shows "reflected h' (EndSet n)"
proof -
  from assms obtain i where i: "i < length (historyEntries h)"
    and entries: "historyEntries h' =
           (historyEntries h)[i := HistoryEntry n (entryType (historyEntries h ! i))
                                      (entryBegin (historyEntries h ! i)) (Some ts)
                                      (subhistory (historyEntries h ! i))]"
    by (rule setEnd_entries)
  then have "HistoryEntry n (entryType (historyEntries h ! i))
               (entryBegin (historyEntries h ! i)) (Some ts)
               (subhistory (historyEntries h ! i)) \<in> set (historyEntries h')"
    by (simp add: set_update_memI)
  then show ?thesis
    by (force simp: list_ex_iff)
qed

lemma getLastEntry_loop_last:
  "getLastEntry_loop entries n k = Some i \<Longrightarrow> i < j \<Longrightarrow> j < k \<Longrightarrow>
   entryName (entries ! j) \<noteq> n"
proof (induction k)
  case 0
  then show ?case by simp
next
  case (Suc k)
  show ?case
  proof (cases "entryName (entries ! k) = n")
    case True
    with Suc.prems show ?thesis by simp
  next
    case False
    with Suc.prems have "getLastEntry_loop entries n k = Some i" by simp
    with Suc.IH Suc.prems False show ?thesis
      by (cases "j = k") auto
  qed
qed

lemma getLastEntryIndex_lastNamed: "getLastEntryIndex h n = lastNamed n (historyEntries h)"
proof -
  have "getLastEntry_loop entries n k = find (\<lambda>i. entryName (entries ! i) = n) (rev [0..<k])"
    for entries k
    by (induction k) simp_all
  then show ?thesis
    by (simp add: getLastEntryIndex_def lastNamed_def)
qed

lemma keepsHistory_addEntry: "keepsHistory h (addEntry ts n ty h)"
  by (simp add: keepsHistory_iff addEntry_def nth_append)

lemma keepsHistory_setEnd:
  assumes "setEnd ts n h = Some h'"
  shows "keepsHistory h h'"
proof -
  from assms obtain i where found: "getLastEntryIndex h n = Some i"
    by (auto simp: setEnd_def split: option.splits)
  then have i: "i < length (historyEntries h)" "entryName (historyEntries h ! i) = n"
    unfolding getLastEntryIndex_def by (auto dest: getLastEntry_loop_found)
  from found have last: "\<not> laterNamesake (historyEntries h) i"
    unfolding getLastEntryIndex_def laterNamesake_iff
    using i(2) by (auto dest: getLastEntry_loop_last)
  from assms found have h': "h' =
      History ((historyEntries h)[i := HistoryEntry (entryName (historyEntries h ! i))
                 (entryType (historyEntries h ! i)) (entryBegin (historyEntries h ! i)) (Some ts)
                 (subhistory (historyEntries h ! i))])
        (createdAt h)
        (if isEndEventName (entryType (historyEntries h ! i)) then Some ts else finishedAt h)"
    by (auto simp: setEnd_def Let_def)
  show ?thesis
    unfolding keepsHistory_iff
  proof (intro conjI allI impI)
    fix j
    assume "j < length (historyEntries h)"
    then show "entryEnd (historyEntries h' ! j) = entryEnd (historyEntries h ! j) \<or>
               \<not> laterNamesake (historyEntries h) j"
      using last by (cases "j = i") (simp_all add: h')
  qed (use i in \<open>auto simp: h' nth_list_update\<close>)
qed

lemma grows_history:
  assumes "\<And>a. reflected (history p) a \<Longrightarrow> reflected h a"
    and "list_all (\<lambda>b. b \<in> set (trace p)) (needs a)" and "reflected h a"
    and "keepsHistory (history p) h"
  shows "grows p (log a (p\<lparr>history := h\<rparr>))"
proof -
  have "wellOrdered (p\<lparr>history := h\<rparr>)" if "wellOrdered p"
    using that assms(1) by (auto simp: wellOrdered_def list_all_iff)
  then have "wellOrdered (log a (p\<lparr>history := h\<rparr>))" if "wellOrdered p"
    using that assms(2,3) by (intro wellOrdered_log) simp_all
  with assms(4) show ?thesis
    by (simp add: grows_def) (simp add: log_def)
qed

lemma grows_onFlowObjectBegin:
  assumes "\<And>q. grows p q \<Longrightarrow> EntryAdded (foName fo) \<in> set (trace q) \<Longrightarrow> grows q (snd (done q))"
    and "TokenPut (foName fo) \<in> set (trace p)"
  shows "grows p (snd (onFlowObjectBegin env fo data done p))"
proof -
  define p1 where "p1 = log (EntryAdded (foName fo))
                 (p\<lparr>history := addEntry (now env) (foName fo) (foType fo) (history p)\<rparr>)"
  define p2 where "p2 = (if isStartEvent fo
                then p1\<lparr>views := (views p1)\<lparr>startEvent := Some 0\<rparr>\<rparr> else p1)"
  define p3 where "p3 = log (BeginHandlerCalled (foName fo)) p2"
  have "grows p p1"
    unfolding p1_def
    by (rule grows_history)
      (erule reflected_addEntry, simp add: assms(2), rule reflected_added, rule keepsHistory_addEntry)
  moreover have "grows p1 p2"
    unfolding p2_def by (rule grows_silent) simp_all
  ultimately have p2: "grows p p2" by (rule grows_trans)
  have "grows p2 p3"
    unfolding p3_def by (rule grows_log) simp_all
  with p2 have p3: "grows p p3" by (rule grows_trans)
  have added: "EntryAdded (foName fo) \<in> set (trace p2)" "EntryAdded (foName fo) \<in> set (trace p3)"
    by (simp_all add: p3_def p2_def p1_def log_def)
  from p2 added have "grows p (snd (done p2))"
    by (auto intro: grows_trans assms(1))
  moreover from p3 added have "grows p (snd (done p3))"
    by (auto intro: grows_trans assms(1))
  moreover have "onFlowObjectBegin env fo data done p =
      (case onBeginHandler env of
         Some h \<Rightarrow> if h (foName fo) data then done p3 else (Normal, p3)
       | None \<Rightarrow> done p2)"
    by (simp add: onFlowObjectBegin_def Let_def p1_def p2_def p3_def split: option.split)
  ultimately show ?thesis
    using p3 by (simp split: option.splits)
qed

lemma grows_onFlowObjectEnd_finished:
  assumes "\<And>q. grows p q \<Longrightarrow> EndSet n \<in> set (trace q) \<Longrightarrow> grows q (snd (done q))"
  shows "grows p (snd (onFlowObjectEnd_finished env n done p))"
proof (cases "setEnd (now env) n (history p)")
  case None
  then show ?thesis
    by (simp add: onFlowObjectEnd_finished_def grows_refl)
next
  case (Some h)
  define p1 where "p1 = log (EndSet n) (p\<lparr>history := h\<rparr>)"
  define p2 where "p2 = (if isFinished h
                     then p1\<lparr>views := (views p1)\<lparr>duration :=
                            Some ((case finishedAt h of None \<Rightarrow> 0 | Some f \<Rightarrow> f) - createdAt h)\<rparr>\<rparr>
                     else p1)"
  have "grows p p1"
    unfolding p1_def
    by (rule grows_history)
      (erule reflected_setEnd [OF Some], simp, rule reflected_ended [OF Some],
       rule keepsHistory_setEnd [OF Some])
  moreover have "grows p1 p2"
    unfolding p2_def by (rule grows_silent) simp_all
  ultimately have p2: "grows p p2" by (rule grows_trans)
  have "EndSet n \<in> set (trace p2)"
    by (simp add: p2_def p1_def log_def)
  with p2 have "grows p (snd (done p2))"
    by (auto intro: grows_trans assms)
  moreover have "onFlowObjectEnd_finished env n done p = done p2"
    by (simp add: onFlowObjectEnd_finished_def Some Let_def p1_def p2_def)
  ultimately show ?thesis
    by simp
qed

lemma grows_onFlowObjectEnd:
  assumes "\<And>q. grows p q \<Longrightarrow> EndSet n \<in> set (trace q) \<Longrightarrow> grows q (snd (done q))"
  shows "grows p (snd (onFlowObjectEnd env n data done p))"
proof (cases "onEndHandler env")
  case None
  then show ?thesis
    by (simp add: onFlowObjectEnd_def grows_onFlowObjectEnd_finished assms)
next
  case (Some h)
  define p1 where "p1 = log (EndHandlerCalled n) p"
  have p1: "grows p p1"
    unfolding p1_def by (rule grows_log) simp_all
  have "grows p1 (snd (onFlowObjectEnd_finished env n done p1))"
    by (rule grows_onFlowObjectEnd_finished) (auto intro: assms grows_trans [OF p1])
  with p1 have "grows p (snd (onFlowObjectEnd_finished env n done p1))"
    by (rule grows_trans)
  with p1 show ?thesis
    by (simp add: onFlowObjectEnd_def Some Let_def p1_def [symmetric])
qed

lemma grows_noop: "grows q (snd (noop d q))"
  by (simp add: noop_def grows_refl)

lemma grows_onProcessEnd: "grows p (snd (onProcessEnd env n p))"
proof -
  let ?p1 = "p\<lparr>views := (views p)\<lparr>endEvent := getLastEntryIndex (history p) n\<rparr>\<rparr>"
  have "grows p ?p1" by (rule grows_silent) simp_all
  moreover have "grows ?p1 (persist env True ?p1)" by (rule grows_persist)
  ultimately show ?thesis
    by (auto simp: onProcessEnd_def intro: grows_trans)
qed

lemma grows_emitTokenAlong:
  assumes "putGrows put" and "EndSet (foName fo) \<in> set (trace p)"
  shows "grows p (snd (emitTokenAlong put env fo flow data p))"
proof (cases "getProcessElement (processDefinition env) (targetRef flow)")
  case None
  then show ?thesis by (simp add: emitTokenAlong_def grows_refl)
next
  case (Some nextFlowObject)
  let ?p1 = "log (TokenEmitted (foName fo) (flowName flow)) p"
  have "grows p ?p1"
    by (rule grows_log) (simp_all add: assms(2))
  moreover from assms(1) have "grows ?p1 (snd (put nextFlowObject data ?p1))"
    by (simp add: putGrows_def)
  ultimately show ?thesis
    by (auto simp: emitTokenAlong_def Some intro: grows_trans)
qed

lemma grows_emitAlongAll:
  assumes "putGrows put" and "EndSet (foName fo) \<in> set (trace p)"
  shows "grows p (snd (forEach flows (\<lambda>flow. emitTokenAlong put env fo flow data) p))"
  by (rule grows_forEach) (auto intro: grows_emitTokenAlong grows_mem assms)

lemma grows_flowObject_emitTokens:
  assumes "putGrows put"
  shows "grows p (snd (flowObject_emitTokens put env fo data p))"
  unfolding flowObject_emitTokens_def
  by (rule grows_onFlowObjectEnd) (rule grows_emitAlongAll [OF assms])

lemma grows_exclusiveGateway_iter:
  assumes "putGrows put" and "EndSet (foName self) \<in> set (trace p)"
  shows "grows p (snd (exclusiveGateway_iter put env self isDiverging data flows emitted p))"
  using assms(2)
proof (induction flows arbitrary: emitted p)
  case Nil
  then show ?case by (simp add: grows_refl)
next
  case (Cons flow rest)
  have along: "grows q (snd (andThen (emitTokenAlong put env self flow data q)
                               (exclusiveGateway_iter put env self isDiverging data rest True)))"
    if "EndSet (foName self) \<in> set (trace q)" for q
    by (rule grows_andThen)
      (auto intro: grows_emitTokenAlong assms(1) that Cons.IH grows_mem)
  show ?case
  proof (cases emitted)
    case True
    with Cons show ?thesis by simp
  next
    case notEmitted: False
    show ?thesis
    proof (cases isDiverging)
      case False
      with notEmitted along [OF Cons.prems] show ?thesis by simp
    next
      case True
      obtain r out p1 where asked:
        "callHandler env (foName self @ handlerNameSeparator @ flowName flow) data noop p =
           (r, (out, p1))"
        by (cases "callHandler env (foName self @ handlerNameSeparator @ flowName flow) data noop p")
          auto
      have "grows p (snd (snd (callHandler env
                (foName self @ handlerNameSeparator @ flowName flow) data noop p)))"
        by (rule grows_callHandler) (rule grows_noop)
      with asked have p1: "grows p p1" by simp
      with Cons.prems have ended: "EndSet (foName self) \<in> set (trace p1)"
        by (auto intro: grows_mem)
      from p1 along [OF ended] have "grows p (snd (andThen (emitTokenAlong put env self flow data p1)
                               (exclusiveGateway_iter put env self isDiverging data rest True)))"
        by (rule grows_trans)
      moreover from p1 Cons.IH [OF ended]
      have "grows p (snd (exclusiveGateway_iter put env self isDiverging data rest False p1))"
        by (rule grows_trans)
      ultimately show ?thesis
        using notEmitted True p1 by (cases out) (simp_all add: asked)
    qed
  qed
qed

lemma grows_exclusiveGateway_emitTokens:
  assumes "putGrows put"
  shows "grows p (snd (exclusiveGateway_emitTokens put env self data p))"
  unfolding exclusiveGateway_emitTokens_def Let_def
  by (rule grows_onFlowObjectEnd) (rule grows_exclusiveGateway_iter [OF assms])

lemma grows_parallelGateway_emitTokens:
  assumes "putGrows put"
  shows "grows p (snd (parallelGateway_emitTokens put env self data p))"
proof -
  define p1 where "p1 = p\<lparr>tokens := snd (createTokenAt (foName self) (processId p) [] (tokens p))\<rparr>"
  have p1: "grows p p1"
    unfolding p1_def by (rule grows_silent) simp_all
  have "grows p1 (persist env False p1)" by (rule grows_persist)
  with p1 have waits: "grows p (persist env False p1)" by (rule grows_trans)
  have "grows p1 (snd (onFlowObjectEnd env (foName self) data
                (\<lambda>p2. forEach (getOutgoingSequenceFlows (processDefinition env) self)
                         (\<lambda>outgoingSequenceFlow. emitTokenAlong put env self outgoingSequenceFlow data)
                         (p2\<lparr>tokens := removeAllTokensAt (foName self) (tokens p2)\<rparr>))
                p1))"
  proof (rule grows_onFlowObjectEnd)
    fix q :: process
    assume ended: "EndSet (foName self) \<in> set (trace q)"
    let ?q1 = "q\<lparr>tokens := removeAllTokensAt (foName self) (tokens q)\<rparr>"
    have "grows q ?q1" by (rule grows_silent) simp_all
    moreover from ended have "grows ?q1 (snd (forEach (getOutgoingSequenceFlows (processDefinition env) self)
                         (\<lambda>outgoingSequenceFlow. emitTokenAlong put env self outgoingSequenceFlow data)
                         ?q1))"
      by (intro grows_emitAlongAll [OF assms]) simp
    ultimately show "grows q (snd (forEach (getOutgoingSequenceFlows (processDefinition env) self)
                         (\<lambda>outgoingSequenceFlow. emitTokenAlong put env self outgoingSequenceFlow data)
                         ?q1))"
      by (rule grows_trans)
  qed
  with p1 have "grows p (snd (onFlowObjectEnd env (foName self) data
                (\<lambda>p2. forEach (getOutgoingSequenceFlows (processDefinition env) self)
                         (\<lambda>outgoingSequenceFlow. emitTokenAlong put env self outgoingSequenceFlow data)
                         (p2\<lparr>tokens := removeAllTokensAt (foName self) (tokens p2)\<rparr>))
                p1))"
    by (rule grows_trans)
  with waits show ?thesis
    by (simp add: parallelGateway_emitTokens_def Let_def p1_def)
qed

lemma grows_endEvent_emitTokens: "grows p (snd (endEvent_emitTokens env self data p))"
  unfolding endEvent_emitTokens_def
  by (rule grows_onFlowObjectEnd) (rule grows_onProcessEnd)

lemma grows_callActivity_emitTokens:
  assumes "putGrows put"
  shows "grows p (snd (callActivity_emitTokens put env self data returning p))"
proof (cases returning)
  case True
  then show ?thesis
    by (simp add: callActivity_emitTokens_def grows_flowObject_emitTokens [OF assms])
next
  case False
  have "grows p (p\<lparr>tokens := snd (createTokenAt (foName self) (processId p)
                                    (processId p @ ''::'' @ foName self) (tokens p))\<rparr>)"
    by (rule grows_silent) simp_all
  with False show ?thesis
    by (simp add: callActivity_emitTokens_def)
qed

lemma grows_emitTokens:
  assumes "putGrows put"
  shows "grows p (snd (emitTokens put env fo data returning p))"
  by (cases "foKind fo")
    (simp_all add: emitTokens_def grows_exclusiveGateway_emitTokens grows_parallelGateway_emitTokens
       grows_endEvent_emitTokens grows_callActivity_emitTokens grows_flowObject_emitTokens
       grows_refl assms)

lemma grows_removeTimeout: "grows p (removeTimeout n p)"
  unfolding removeTimeout_def by (rule grows_silent) simp_all

lemma grows_boundaryTimerEventHandler:
  assumes "putGrows put"
  shows "grows p (snd (boundaryTimerEventHandler put env timerEv p))"
proof -
  from assms have "grows (removeTimeout (foName timerEv) p)
                     (snd (put timerEv Undefined (removeTimeout (foName timerEv) p)))"
    by (simp add: putGrows_def)
  with grows_removeTimeout show ?thesis
    unfolding boundaryTimerEventHandler_def by (rule grows_trans)
qed

lemma grows_intermediateTimerEventHandler:
  assumes "putGrows put"
  shows "grows p (snd (intermediateTimerEventHandler put env timerEv p))"
proof -
  define p1 where "p1 = p\<lparr>tokens := removeTokenAt (foName timerEv) (tokens p)\<rparr>"
  define p2 where "p2 = removeTimeout (foName timerEv) p1"
  have "grows p p1" unfolding p1_def by (rule grows_silent) simp_all
  moreover have "grows p1 p2" unfolding p2_def by (rule grows_removeTimeout)
  ultimately have "grows p p2" by (rule grows_trans)
  moreover have "grows p2 (snd (snd (callHandler env (foName timerEv) Null
                (\<lambda>d. emitTokens put env timerEv Undefined False) p2)))"
    by (rule grows_callHandler) (rule grows_emitTokens [OF assms])
  ultimately show ?thesis
    unfolding intermediateTimerEventHandler_def Let_def p1_def [symmetric] p2_def [symmetric]
    by (rule grows_trans)
qed

lemma grows_timeoutEventHandler:
  assumes "putGrows put"
  shows "grows p (snd (timeoutEventHandler put env cb timerEv p))"
  by (cases cb)
    (simp_all add: timeoutEventHandler_def grows_boundaryTimerEventHandler
       grows_intermediateTimerEventHandler assms)

lemma grows_addTimerEvent:
  assumes "putGrows put"
  shows "grows p (snd (addTimerEvent put env cb timerEv pendingTimeout p))"
proof -
  obtain ms out p1 where asked:
    "callHandler env (foName timerEv @ handlerNameSeparator @ ''getTimeout'') Undefined noop p =
       (ms, (out, p1))"
    by (cases "callHandler env (foName timerEv @ handlerNameSeparator @ ''getTimeout'') Undefined noop p")
      auto
  have "grows p (snd (snd (callHandler env
            (foName timerEv @ handlerNameSeparator @ ''getTimeout'') Undefined noop p)))"
    by (rule grows_callHandler) (rule grows_noop)
  with asked have p1: "grows p p1" by simp
  define tmo where "tmo = (case pendingTimeout of
                                Some given \<Rightarrow> given
                              | None \<Rightarrow> \<lparr>at = now env + toNumber ms, timeoutInMs = ms\<rparr>)"
  define p2 where "p2 = p1\<lparr>pendingTimeouts := objSet (foName timerEv) tmo (pendingTimeouts p1)\<rparr>"
  define p3 where "p3 = p2\<lparr>setTimeoutIds :=
                                 objSet (foName timerEv)
                                   \<lparr>callback = cb, timerEvent = timerEv, delay = at tmo - now env\<rparr>
                                   (setTimeoutIds p2)\<rparr>"
  have "grows p1 p2" unfolding p2_def by (rule grows_silent) simp_all
  with p1 have p2: "grows p p2" by (rule grows_trans)
  have "grows p2 p3" unfolding p3_def by (rule grows_silent) simp_all
  with p2 have p3: "grows p p3" by (rule grows_trans)
  from p2 grows_timeoutEventHandler [OF assms]
  have fires: "grows p (snd (timeoutEventHandler put env cb timerEv p2))"
    by (rule grows_trans)
  have "addTimerEvent put env cb timerEv pendingTimeout p =
          (case out of
             Normal \<Rightarrow>
               if isNaN ms then (Thrown BadTimeout, p1)
               else if at tmo - now env > 0 then (Normal, p3)
               else timeoutEventHandler put env cb timerEv p2
           | other \<Rightarrow> (other, p1))"
    by (cases out) (simp_all add: addTimerEvent_def asked Let_def tmo_def p2_def p3_def)
  with p1 p3 fires show ?thesis
    by (cases out) simp_all
qed

lemma grows_registerBoundaryTimerEvents:
  assumes "putGrows put"
  shows "grows p (snd (registerBoundaryTimerEvents put env activity p))"
proof (cases "getBoundaryEventsAt (processDefinition env) activity")
  case (Inl e)
  then show ?thesis by (simp add: registerBoundaryTimerEvents_def grows_refl)
next
  case (Inr boundaryEvents)
  have "grows p (snd (forEach boundaryEvents
            (\<lambda>boundaryEvent p'.
               if isTimerEvent boundaryEvent then addBoundaryTimerEvent put env boundaryEvent None p'
               else (Normal, p'))
            p))"
    by (rule grows_forEach)
      (simp add: addBoundaryTimerEvent_def grows_addTimerEvent [OF assms] grows_refl)
  with Inr show ?thesis by (simp add: registerBoundaryTimerEvents_def)
qed

lemma grows_registerIntermediateTimerEvents:
  assumes "putGrows put"
  shows "grows p (snd (registerIntermediateTimerEvents put env timerEv p))"
  by (simp add: registerIntermediateTimerEvents_def addIntermediateTimerEvent_def
        grows_addTimerEvent [OF assms])

lemma grows_clearBoundaryTimerEvents:
  "grows p (snd (clearBoundaryTimerEvents env fo p))"
proof (cases "getBoundaryEventsAt (processDefinition env) fo")
  case (Inl e)
  then show ?thesis by (simp add: clearBoundaryTimerEvents_def grows_refl)
next
  case (Inr boundaryEvents)
  have "grows p (snd (forEach boundaryEvents
            (\<lambda>boundaryEvent p'.
               if isTimerEvent boundaryEvent then (Normal, removeTimeout (foName boundaryEvent) p')
               else (Normal, p'))
            p))"
    by (rule grows_forEach) (simp add: grows_removeTimeout grows_refl)
  with Inr show ?thesis by (simp add: clearBoundaryTimerEvents_def)
qed

lemma grows_emitTokens_of:
  assumes "putGrows put"
  shows "grows p (snd (emitTokens_of put env fo data returning p))"
proof -
  define p1 where "p1 = p\<lparr>tokens := removeTokenAt (foName fo) (tokens p)\<rparr>"
  define cleared where "cleared =
            (if isBoundaryEvent fo
             then (case getFlowObject (processDefinition env) (attachedToRef fo) of
                     None \<Rightarrow>
                       (case getBoundaryEventsAt (processDefinition env) fo of
                          Inl e \<Rightarrow> (Thrown e, p1)
                        | Inr boundaryEvents \<Rightarrow> (Thrown TypeError, p1))
                   | Some activity \<Rightarrow>
                       andThen (clearBoundaryTimerEvents env activity p1)
                         (\<lambda>p2. onFlowObjectEnd env (foName activity) Undefined (\<lambda>p4. (Normal, p4))
                                  (p2\<lparr>tokens := removeTokenAt (foName activity) (tokens p2)\<rparr>)))
             else clearBoundaryTimerEvents env fo p1)"
  have p1: "grows p p1" unfolding p1_def by (rule grows_silent) simp_all
  have ends: "grows q (snd (onFlowObjectEnd env n Undefined (\<lambda>p4. (Normal, p4))
                                  (q\<lparr>tokens := removeTokenAt n (tokens q)\<rparr>)))" for q n
  proof -
    have "grows q (q\<lparr>tokens := removeTokenAt n (tokens q)\<rparr>)"
      by (rule grows_silent) simp_all
    moreover have "grows (q\<lparr>tokens := removeTokenAt n (tokens q)\<rparr>)
             (snd (onFlowObjectEnd env n Undefined (\<lambda>p4. (Normal, p4))
                                  (q\<lparr>tokens := removeTokenAt n (tokens q)\<rparr>)))"
      by (rule grows_onFlowObjectEnd) (simp add: grows_refl)
    ultimately show ?thesis by (rule grows_trans)
  qed
  have "grows p1 (snd cleared)"
  proof (cases "isBoundaryEvent fo")
    case False
    then show ?thesis by (simp add: cleared_def grows_clearBoundaryTimerEvents)
  next
    case True
    show ?thesis
    proof (cases "getFlowObject (processDefinition env) (attachedToRef fo)")
      case None
      with True show ?thesis
        by (simp add: cleared_def grows_refl split: sum.split)
    next
      case (Some activity)
      have "grows p1 (snd (andThen (clearBoundaryTimerEvents env activity p1)
                         (\<lambda>p2. onFlowObjectEnd env (foName activity) Undefined (\<lambda>p4. (Normal, p4))
                                  (p2\<lparr>tokens := removeTokenAt (foName activity) (tokens p2)\<rparr>))))"
        by (rule grows_andThen) (simp_all add: grows_clearBoundaryTimerEvents ends)
      with True Some show ?thesis by (simp add: cleared_def)
    qed
  qed
  with p1 have "grows p (snd cleared)" by (rule grows_trans)
  then have "grows p (snd (andThen cleared (emitTokens put env fo data returning)))"
    by (rule grows_andThen) (rule grows_emitTokens [OF assms])
  then show ?thesis
    unfolding emitTokens_of_def Let_def cleared_def p1_def .
qed

lemma grows_tokenArrived_handlerDone:
  assumes "putGrows put"
  shows "grows p (snd (tokenArrived_handlerDone put env fo data p))"
proof -
  have "grows p (snd (andThen (registerBoundaryTimerEvents put env fo p)
             (\<lambda>p1. (Normal, persist env False p1))))"
    by (rule grows_andThen) (simp_all add: grows_registerBoundaryTimerEvents [OF assms] grows_persist)
  moreover have "grows p (snd (andThen (registerBoundaryTimerEvents put env fo p)
             (emitTokens_of put env fo data False)))"
    by (rule grows_andThen)
      (simp_all add: grows_registerBoundaryTimerEvents [OF assms] grows_emitTokens_of [OF assms])
  ultimately show ?thesis
    by (simp add: tokenArrived_handlerDone_def grows_emitTokens_of [OF assms])
qed

lemma grows_onTokenArrivedEventHandler:
  assumes "putGrows put" and "EntryAdded n \<in> set (trace p)"
  shows "grows p (snd (onTokenArrivedEventHandler put env n eventData p))"
proof (cases "getFlowObjectByName (processDefinition env) n")
  case (Inl e)
  then show ?thesis by (simp add: onTokenArrivedEventHandler_def grows_refl)
next
  case (Inr found)
  show ?thesis
  proof (cases found)
    case None
    with Inr show ?thesis by (simp add: onTokenArrivedEventHandler_def grows_refl)
  next
    case (Some fo)
    define p0 where "p0 = log (TokenArrived n) p"
    have p0: "grows p p0"
      unfolding p0_def by (rule grows_log) (simp_all add: assms(2))
    have "grows p0 (snd (andThen
                     (if isTimerEvent fo
                      then registerIntermediateTimerEvents put env fo p0
                      else (Normal, p0))
                     (\<lambda>p1. (Normal, persist env False p1))))"
      by (rule grows_andThen)
        (simp_all add: grows_registerIntermediateTimerEvents [OF assms(1)] grows_refl grows_persist)
    with p0 have waits: "grows p (snd (andThen
                     (if isTimerEvent fo
                      then registerIntermediateTimerEvents put env fo p0
                      else (Normal, p0))
                     (\<lambda>p1. (Normal, persist env False p1))))"
      by (rule grows_trans)
    have "grows p0 (snd (snd (callHandler env n eventData
                          (tokenArrived_handlerDone put env fo) p0)))"
      by (rule grows_callHandler) (rule grows_tokenArrived_handlerDone [OF assms(1)])
    with p0 have handled: "grows p (snd (snd (callHandler env n eventData
                          (tokenArrived_handlerDone put env fo) p0)))"
      by (rule grows_trans)
    have eq: "onTokenArrivedEventHandler put env n eventData p =
        (if isIntermediateCatchEvent fo
         then andThen
                (if isTimerEvent fo
                 then registerIntermediateTimerEvents put env fo p0
                 else (Normal, p0))
                (\<lambda>p1. (Normal, persist env False p1))
         else snd (callHandler env n eventData (tokenArrived_handlerDone put env fo) p0))"
      unfolding onTokenArrivedEventHandler_def Inr Some Let_def p0_def by simp
    show ?thesis
    proof (cases "isIntermediateCatchEvent fo")
      case True
      with waits show ?thesis by (simp only: eq if_True)
    next
      case False
      with handled show ?thesis by (simp only: eq if_False)
    qed
  qed
qed

lemma grows_activityEndHandler:
  assumes "putGrows put"
  shows "grows p (snd (activityEndHandler put env activityName eventData p))"
proof (cases "hasTokens (tokens p) activityName")
  case False
  have "grows p (snd (callDefaultEventHandler env ''ACTIVITY_END_EVENT'' activityName
                        (mapName2HandlerName activityName @ activityEndHandlerPostfix) noop p))"
    by (rule grows_callDefaultEventHandler) (rule grows_noop)
  with False show ?thesis by (simp add: activityEndHandler_def Let_def)
next
  case True
  show ?thesis
  proof (cases "getFirstToken (tokens p) activityName")
    case None
    with True show ?thesis by (simp add: activityEndHandler_def Let_def grows_refl)
  next
    case (Some currentToken)
    show ?thesis
    proof (cases "getFlowObjectByName (processDefinition env) (position currentToken)")
      case (Inl e)
      with True Some show ?thesis by (simp add: activityEndHandler_def Let_def grows_refl)
    next
      case (Inr currentFlowObject)
      have "grows p (snd (snd (callHandler env
                (mapName2HandlerName activityName @ activityEndHandlerPostfix) eventData
                (\<lambda>data p1.
                   case currentFlowObject of
                     None \<Rightarrow> (Thrown TypeError, p1)
                   | Some fo \<Rightarrow> emitTokens_of put env fo data True p1)
                p)))"
        by (rule grows_callHandler)
          (simp add: grows_refl grows_emitTokens_of [OF assms] split: option.split)
      with True Some Inr show ?thesis
        by (simp add: activityEndHandler_def Let_def grows_refl)
    qed
  qed
qed

lemma grows_intermediateCatchHandler:
  assumes "putGrows put"
  shows "grows p (snd (intermediateCatchHandler put env eventName eventData p))"
proof (cases "hasTokens (tokens p) eventName")
  case False
  have "grows p (snd (callDefaultEventHandler env ''INTERMEDIATE_CATCH_EVENT'' eventName
                        (mapName2HandlerName eventName) noop p))"
    by (rule grows_callDefaultEventHandler) (rule grows_noop)
  with False show ?thesis by (simp add: intermediateCatchHandler_def Let_def)
next
  case True
  show ?thesis
  proof (cases "getFlowObjectByName (processDefinition env) eventName")
    case (Inl e)
    with True show ?thesis by (simp add: intermediateCatchHandler_def Let_def grows_refl)
  next
    case (Inr catchIntermediateEventObject)
    have "grows p (snd (snd (callHandler env (mapName2HandlerName eventName) eventData
                (\<lambda>data p1.
                   case catchIntermediateEventObject of
                     None \<Rightarrow> (Thrown TypeError, p1)
                   | Some fo \<Rightarrow> emitTokens_of put env fo data True p1)
                p)))"
      by (rule grows_callHandler)
        (simp add: grows_refl grows_emitTokens_of [OF assms] split: option.split)
    with True Inr show ?thesis
      by (simp add: intermediateCatchHandler_def Let_def)
  qed
qed

lemma grows_boundaryCatchHandler:
  assumes "putGrows put"
  shows "grows p (snd (boundaryCatchHandler put env eventName eventData p))"
proof (cases "getFlowObjectByName (processDefinition env) eventName")
  case (Inl e)
  then show ?thesis by (simp add: boundaryCatchHandler_def Let_def grows_refl)
next
  case (Inr found)
  show ?thesis
  proof (cases found)
    case None
    with Inr show ?thesis by (simp add: boundaryCatchHandler_def Let_def grows_refl)
  next
    case (Some catchBoundaryEventObject)
    show ?thesis
    proof (cases "getFlowObject (processDefinition env) (attachedToRef catchBoundaryEventObject)")
      case None
      with Inr Some show ?thesis by (simp add: boundaryCatchHandler_def Let_def grows_refl)
    next
      case activity: (Some activity)
      let ?p1 = "p\<lparr>tokens := removeTokenAt (foName activity) (tokens p)\<rparr>"
      have "grows p ?p1" by (rule grows_silent) simp_all
      moreover from assms have "grows ?p1 (snd (put catchBoundaryEventObject eventData ?p1))"
        by (simp add: putGrows_def)
      ultimately have "grows p (snd (put catchBoundaryEventObject eventData ?p1))"
        by (rule grows_trans)
      moreover have "grows p (snd (callDefaultEventHandler env ''BOUNDARY_CATCH_EVENT'' eventName
                        (mapName2HandlerName eventName) noop p))"
        by (rule grows_callDefaultEventHandler) (rule grows_noop)
      ultimately show ?thesis
        using Inr Some activity by (simp add: boundaryCatchHandler_def Let_def)
    qed
  qed
qed

lemma grows_emit:
  assumes "putGrows put" and "announced (trace p) ev"
  shows "grows p (snd (emit put env ev p))"
proof (cases ev)
  case (Event evType n data)
  with assms show ?thesis
    by (cases evType)
      (simp_all add: grows_onTokenArrivedEventHandler grows_activityEndHandler
         grows_intermediateCatchHandler grows_boundaryCatchHandler)
qed

lemma grows_emitEvent:
  assumes "putGrows put" and "announced (trace p) (Event evType n data)"
  shows "grows p (snd (emitEvent put env evType n data p))"
proof -
  define data' where "data' = (if truthy data then data else JObj [])"
  from assms(2) have announced: "announced (trace p) (Event evType n data')"
    by simp
  have "grows p (p\<lparr>deferredEvents := deferredEvents p @ [Event evType n data']\<rparr>)"
    using announced by (simp add: grows_def wellOrdered_def keepsHistory_refl)
  moreover from assms(1) announced have "grows p (snd (emit put env (Event evType n data') p))"
    by (rule grows_emit)
  ultimately show ?thesis
    by (simp add: emitEvent_def Let_def data'_def)
qed

lemma grows_putTokenAt_body:
  assumes "putGrows put"
  shows "grows p (snd (putTokenAt_body put env fo data p))"
proof -
  define p1 where "p1 = log (TokenPut (foName fo))
                 (p\<lparr>tokens := snd (createTokenAt (foName fo) (processId p) [] (tokens p))\<rparr>)"
  have "grows p (p\<lparr>tokens := snd (createTokenAt (foName fo) (processId p) [] (tokens p))\<rparr>)"
    by (rule grows_silent) simp_all
  moreover have "grows (p\<lparr>tokens := snd (createTokenAt (foName fo) (processId p) [] (tokens p))\<rparr>) p1"
    unfolding p1_def by (rule grows_log) simp_all
  ultimately have "grows p p1" by (rule grows_trans)
  moreover have "grows p1 (snd (onFlowObjectBegin env fo data
           (emitEvent put env TOKEN_ARRIVED_EVENT (foName fo) data) p1))"
    by (rule grows_onFlowObjectBegin) (simp_all add: grows_emitEvent [OF assms] p1_def log_def)
  ultimately show ?thesis
    unfolding putTokenAt_body_def Let_def p1_def [symmetric] by (rule grows_trans)
qed

lemma putGrows_putTokenAt: "putGrows (putTokenAt fuel env)"
proof (induction fuel)
  case 0
  then show ?case by (simp add: putGrows_def grows_refl)
next
  case (Suc fuel)
  have "grows p (snd (putTokenAt (Suc fuel) env fo data p))" for fo data p
    using grows_putTokenAt_body [OF Suc, of p env fo data] by simp
  then show ?case
    unfolding putGrows_def by blast
qed

lemma grows_triggerEvent_with:
  assumes "putGrows put"
  shows "grows p (snd (triggerEvent_with put env eventName data p))"
proof -
  have start: "grows p (snd (put fo data p))" for fo
    using assms by (simp add: putGrows_def)
  have later: "grows p (p\<lparr>nextTicks := nextTicks p @
                     [TickEmitEvent (Event INTERMEDIATE_CATCH_EVENT eventName data)]\<rparr>)"
    by (simp add: grows_def wellOrdered_def keepsHistory_refl)
  have boundary: "grows p (snd (emitEvent put env BOUNDARY_CATCH_EVENT eventName data p))"
    by (rule grows_emitEvent [OF assms]) simp
  have task: "grows p (snd (taskDone put env n data p))" for n
    unfolding taskDone_def by (rule grows_emitEvent [OF assms]) simp
  show ?thesis
    by (simp add: triggerEvent_with_def Let_def grows_refl start later boundary task
          split: sum.split option.split)
qed

lemma grows_timerFires: "grows p (snd (timerFires fuel env timerEventName p))"
  by (simp add: timerFires_def grows_refl grows_timeoutEventHandler putGrows_putTokenAt
        split: option.split)

lemma grows_emitDeferredEvents: "grows p (emitDeferredEvents p)"
  by (auto simp: grows_def wellOrdered_def emitDeferredEvents_def list_all_iff keepsHistory_refl)

lemma grows_runNextTick:
  assumes "wellOrdered p"
  shows "grows p (snd (runNextTick fuel env p))"
proof (cases "nextTicks p")
  case Nil
  then show ?thesis by (simp add: runNextTick_def grows_refl)
next
  case (Cons t rest)
  define p' where "p' = p\<lparr>nextTicks := rest\<rparr>"
  from Cons have taken: "grows p p'"
    by (simp add: grows_def wellOrdered_def p'_def keepsHistory_refl)
  from assms Cons have announced: "announced (trace p') (eventOf t)"
    by (simp add: wellOrdered_def p'_def)
  show ?thesis
  proof (cases t)
    case (TickEmit ev)
    with announced have "grows p' (snd (emit (putTokenAt fuel env) env ev p'))"
      by (intro grows_emit putGrows_putTokenAt) simp
    with taken have "grows p (snd (emit (putTokenAt fuel env) env ev p'))"
      by (rule grows_trans)
    with Cons TickEmit show ?thesis by (simp add: runNextTick_def p'_def)
  next
    case (TickEmitEvent ev)
    obtain evType n data where ev: "ev = Event evType n data" by (cases ev)
    with announced TickEmitEvent
    have "grows p' (snd (emitEvent (putTokenAt fuel env) env evType n data p'))"
      by (intro grows_emitEvent putGrows_putTokenAt) simp
    with taken have "grows p (snd (emitEvent (putTokenAt fuel env) env evType n data p'))"
      by (rule grows_trans)
    with Cons TickEmitEvent ev show ?thesis by (simp add: runNextTick_def p'_def)
  qed
qed

section \<open>What putting a token and emitting tokens do to the history\<close>

lemma putTokenAt_body_arrival:
  "putTokenAt_body put env fo data p =
     afterBegin env fo data (emitEvent put env TOKEN_ARRIVED_EVENT (foName fo) data)
       (arrival env fo p)"
  by (simp add: putTokenAt_body_def onFlowObjectBegin_def afterBegin_def arrival_def
        createTokenAt_def addEntry_def newHistoryEntry_def log_def Let_def
      split: option.split)

lemma onFlowObjectEnd_finished_settingEnd:
  "onFlowObjectEnd_finished env n done p = settingEnd env n done p"
proof (cases "lastNamed n (historyEntries (history p))")
  case None
  then show ?thesis
    by (simp add: onFlowObjectEnd_finished_def settingEnd_def setEnd_def
          getLastEntryIndex_lastNamed)
next
  case (Some i)
  then have "entryName (historyEntries (history p) ! i) = n"
    using getLastEntry_loop_found [of "historyEntries (history p)" n
            "length (historyEntries (history p))" i]
    by (simp add: getLastEntryIndex_lastNamed [symmetric] getLastEntryIndex_def)
  with Some show ?thesis
    by (simp add: onFlowObjectEnd_finished_def settingEnd_def setEnd_def endedAt_def
          getLastEntryIndex_lastNamed log_def Let_def)
qed

lemma onFlowObjectEnd_settingEnd:
  "onFlowObjectEnd env n data done p = afterEndHook env n data (settingEnd env n done) p"
  by (simp add: onFlowObjectEnd_def afterEndHook_def onFlowObjectEnd_finished_settingEnd Let_def
      split: option.split)

lemma emitTokens_placing:
  assumes "foKind fo \<noteq> NoFlowObject" and "foKind fo = CallActivity \<longrightarrow> returning"
  shows "emitTokens put env fo data returning p =
     (if stillWaiting env fo p then (Normal, persist env False (withToken fo p))
      else onFlowObjectEnd env (foName fo) data (placing put env fo data)
             (if foKind fo = ParallelGateway then withToken fo p else p))"
  using assms
  by (cases "foKind fo")
    (simp_all add: emitTokens_def placing_def [abs_def] stillWaiting_def withToken_def
       exclusiveGateway_emitTokens_def parallelGateway_emitTokens_def endEvent_emitTokens_def
       callActivity_emitTokens_def flowObject_emitTokens_def createTokenAt_def Let_def)

lemma emitTokens_waiting:
  assumes "stillWaiting env fo p"
  shows "emitTokens put env fo data returning p = (Normal, persist env False (withToken fo p))"
    and "history (snd (emitTokens put env fo data returning p)) = history p"
proof -
  from assms have kind: "foKind fo = ParallelGateway"
    by (simp add: stillWaiting_def)
  with assms show "emitTokens put env fo data returning p =
                     (Normal, persist env False (withToken fo p))"
    by (simp add: emitTokens_placing)
  then show "history (snd (emitTokens put env fo data returning p)) = history p"
    by (simp add: persist_def withToken_def log_def)
qed

lemma tokenArrived_handlerDone_emits:
  assumes "\<not> isWaitTask fo" and "\<not> isCallActivity fo" and "\<not> isBoundaryEvent fo"
  shows "tokenArrived_handlerDone put env fo data p =
           andThen (clearBoundaryTimerEvents env fo
                      (p\<lparr>tokens := removeTokenAt (foName fo) (tokens p)\<rparr>))
             (emitTokens put env fo data False)"
  using assms by (simp add: tokenArrived_handlerDone_def emitTokens_of_def Let_def)

lemma emit_arrived:
  assumes "getFlowObjectByName (processDefinition env) n = Inr (Some fo)"
    and "\<not> isIntermediateCatchEvent fo"
  shows "emit put env (Event TOKEN_ARRIVED_EVENT n data) p =
           snd (callHandler env n data (tokenArrived_handlerDone put env fo)
                  (log (TokenArrived n) p))"
  using assms by (simp add: onTokenArrivedEventHandler_def Let_def)

lemma callHandler_calls_done:
  assumes "getHandlerFromProcess n env = Some (HFunction f)"
    and "f data = CallsDone d r"
    and "fst (done d (log (HandlerCalled (mapName2HandlerName n) data) p)) = Normal"
  shows "snd (callHandler env n data done p) =
           done d (log (HandlerCalled (mapName2HandlerName n) data) p)"
proof -
  obtain out q where run: "done d (log (HandlerCalled (mapName2HandlerName n) data) p) = (out, q)"
    by (cases "done d (log (HandlerCalled (mapName2HandlerName n) data) p)")
  with assms show ?thesis
    by (simp add: callHandler_def Let_def)
qed

lemma lastNamed_last:
  assumes "lastNamed n entries = Some i"
  shows "i < length entries \<and> entryName (entries ! i) = n \<and> \<not> laterNamesake entries i"
proof -
  have "getLastEntry_loop entries n k = find (\<lambda>i. entryName (entries ! i) = n) (rev [0..<k])" for k
    by (induction k) simp_all
  with assms have loop: "getLastEntry_loop entries n (length entries) = Some i"
    by (simp add: lastNamed_def)
  then have "i < length entries \<and> entryName (entries ! i) = n"
    by (rule getLastEntry_loop_found)
  moreover from loop this have "\<not> laterNamesake entries i"
    unfolding laterNamesake_iff by (auto dest: getLastEntry_loop_last)
  ultimately show ?thesis by simp
qed

text \<open>
  Claim C6, with the end set when the tokens are emitted. Putting a token on a flow
  object first puts the token and appends one history entry for it, with the clock
  reading as its begin and no end, and only then emits the event of the arrival. The
  listener of that event calls the user handler of a flow object that is not an
  intermediate catch event, with \<open>handlerDone\<close> as the callback \<open>done\<close>. A handler that calls
  \<open>done\<close> returns in the state in which \<open>done\<close> has returned, and for a flow object that is
  neither a wait task nor a call activity nor a boundary event \<open>handlerDone\<close> itself emits
  the tokens: the end is there when the callback returns. Emitting the tokens of a flow
  object, whatever its kind, sets the end and then places the tokens, unless the flow
  object is a parallel gateway that is still waiting, which only persists and leaves the
  history as it is. Setting the end puts the clock reading on the last entry of the name
  and changes no other entry; placing a token along a flow is putting it on the target
  of the flow. From a well ordered instance, every way into the engine (putting a token,
  triggering an event, a timer that fires, the next tick, the emission of the deferred
  events) leads to a well ordered instance whose history has grown out of the old one:
  in its trace every entry is added after its token was put, every arrival is handled
  after an entry of the name was added and every token is sent along a flow after an end
  was set for the name, and no entry is gone or has changed but for the end of an entry
  that had no later entry of its name.
\<close>

theorem C6_history_before_handler_and_tokens:
  "putTokenAt (Suc fuel) env fo data p =
     afterBegin env fo data (emitEvent (putTokenAt fuel env) env TOKEN_ARRIVED_EVENT (foName fo) data)
       (arrival env fo p) \<and>
   (getFlowObjectByName (processDefinition env) n = Inr (Some fo) \<and>
    \<not> isIntermediateCatchEvent fo \<longrightarrow>
      emit put env (Event TOKEN_ARRIVED_EVENT n data) p =
        snd (callHandler env n data (tokenArrived_handlerDone put env fo)
               (log (TokenArrived n) p))) \<and>
   (getHandlerFromProcess n env = Some (HFunction f) \<and> f data = CallsDone d r \<and>
    fst (done d (log (HandlerCalled (mapName2HandlerName n) data) p)) = Normal \<longrightarrow>
      snd (callHandler env n data done p) =
        done d (log (HandlerCalled (mapName2HandlerName n) data) p)) \<and>
   (\<not> isWaitTask fo \<and> \<not> isCallActivity fo \<and> \<not> isBoundaryEvent fo \<longrightarrow>
      tokenArrived_handlerDone put env fo data p =
        andThen (clearBoundaryTimerEvents env fo
                   (p\<lparr>tokens := removeTokenAt (foName fo) (tokens p)\<rparr>))
          (emitTokens put env fo data False)) \<and>
   (foKind fo \<noteq> NoFlowObject \<and> (foKind fo = CallActivity \<longrightarrow> returning) \<longrightarrow>
      emitTokens put env fo data returning p =
        (if stillWaiting env fo p then (Normal, persist env False (withToken fo p))
         else onFlowObjectEnd env (foName fo) data (placing put env fo data)
                (if foKind fo = ParallelGateway then withToken fo p else p))) \<and>
   (stillWaiting env fo p \<longrightarrow>
      history (snd (emitTokens put env fo data returning p)) = history p) \<and>
   onFlowObjectEnd env n data finished p =
     afterEndHook env n data (settingEnd env n finished) p \<and>
   (lastNamed n entries = Some i \<longrightarrow>
      i < length entries \<and> entryName (entries ! i) = n \<and> \<not> laterNamesake entries i) \<and>
   emitTokenAlong put env fo flow data p =
     (case getProcessElement (processDefinition env) (targetRef flow) of
        None \<Rightarrow> (Thrown TypeError, p)
      | Some nextFlowObject \<Rightarrow>
          put nextFlowObject data (log (TokenEmitted (foName fo) (flowName flow)) p)) \<and>
   (wellOrdered p \<longrightarrow>
      wellOrdered (snd (putTokenAt fuel env fo data p)) \<and>
      keepsHistory (history p) (history (snd (putTokenAt fuel env fo data p))) \<and>
      wellOrdered (snd (triggerEvent fuel env eventName data p)) \<and>
      keepsHistory (history p) (history (snd (triggerEvent fuel env eventName data p))) \<and>
      wellOrdered (snd (timerFires fuel env timerEventName p)) \<and>
      keepsHistory (history p) (history (snd (timerFires fuel env timerEventName p))) \<and>
      wellOrdered (snd (runNextTick fuel env p)) \<and>
      keepsHistory (history p) (history (snd (runNextTick fuel env p))) \<and>
      wellOrdered (emitDeferredEvents p) \<and>
      keepsHistory (history p) (history (emitDeferredEvents p)))"
proof -
  have arrives: "putTokenAt (Suc fuel) env fo data p =
     afterBegin env fo data (emitEvent (putTokenAt fuel env) env TOKEN_ARRIVED_EVENT (foName fo) data)
       (arrival env fo p)"
    by (simp add: putTokenAt_body_arrival)
  have handled: "getFlowObjectByName (processDefinition env) n = Inr (Some fo) \<and>
    \<not> isIntermediateCatchEvent fo \<longrightarrow>
      emit put env (Event TOKEN_ARRIVED_EVENT n data) p =
        snd (callHandler env n data (tokenArrived_handlerDone put env fo)
               (log (TokenArrived n) p))"
    using emit_arrived by blast
  have returns: "getHandlerFromProcess n env = Some (HFunction f) \<and> f data = CallsDone d r \<and>
    fst (done d (log (HandlerCalled (mapName2HandlerName n) data) p)) = Normal \<longrightarrow>
      snd (callHandler env n data done p) =
        done d (log (HandlerCalled (mapName2HandlerName n) data) p)"
    using callHandler_calls_done by blast
  have emits: "\<not> isWaitTask fo \<and> \<not> isCallActivity fo \<and> \<not> isBoundaryEvent fo \<longrightarrow>
      tokenArrived_handlerDone put env fo data p =
        andThen (clearBoundaryTimerEvents env fo
                   (p\<lparr>tokens := removeTokenAt (foName fo) (tokens p)\<rparr>))
          (emitTokens put env fo data False)"
    using tokenArrived_handlerDone_emits by blast
  have places: "foKind fo \<noteq> NoFlowObject \<and> (foKind fo = CallActivity \<longrightarrow> returning) \<longrightarrow>
      emitTokens put env fo data returning p =
        (if stillWaiting env fo p then (Normal, persist env False (withToken fo p))
         else onFlowObjectEnd env (foName fo) data (placing put env fo data)
                (if foKind fo = ParallelGateway then withToken fo p else p))"
    using emitTokens_placing [of fo returning put env data p] by blast
  have waits: "stillWaiting env fo p \<longrightarrow>
      history (snd (emitTokens put env fo data returning p)) = history p"
    using emitTokens_waiting(2) by blast
  have ends: "onFlowObjectEnd env n data finished p =
     afterEndHook env n data (settingEnd env n finished) p"
    by (rule onFlowObjectEnd_settingEnd)
  have last: "lastNamed n entries = Some i \<longrightarrow>
      i < length entries \<and> entryName (entries ! i) = n \<and> \<not> laterNamesake entries i"
    using lastNamed_last by blast
  have along: "emitTokenAlong put env fo flow data p =
     (case getProcessElement (processDefinition env) (targetRef flow) of
        None \<Rightarrow> (Thrown TypeError, p)
      | Some nextFlowObject \<Rightarrow>
          put nextFlowObject data (log (TokenEmitted (foName fo) (flowName flow)) p))"
    by (simp add: emitTokenAlong_def)
  have put: "grows p (snd (putTokenAt fuel env fo data p))"
    using putGrows_putTokenAt [of fuel env] by (simp add: putGrows_def)
  have triggered: "grows p (snd (triggerEvent fuel env eventName data p))"
    unfolding triggerEvent_def by (rule grows_triggerEvent_with) (rule putGrows_putTokenAt)
  have fired: "grows p (snd (timerFires fuel env timerEventName p))"
    by (rule grows_timerFires)
  have emitted: "grows p (emitDeferredEvents p)"
    by (rule grows_emitDeferredEvents)
  have ticked: "wellOrdered p \<longrightarrow> grows p (snd (runNextTick fuel env p))"
    using grows_runNextTick by blast
  have runs: "wellOrdered p \<longrightarrow>
      wellOrdered (snd (putTokenAt fuel env fo data p)) \<and>
      keepsHistory (history p) (history (snd (putTokenAt fuel env fo data p))) \<and>
      wellOrdered (snd (triggerEvent fuel env eventName data p)) \<and>
      keepsHistory (history p) (history (snd (triggerEvent fuel env eventName data p))) \<and>
      wellOrdered (snd (timerFires fuel env timerEventName p)) \<and>
      keepsHistory (history p) (history (snd (timerFires fuel env timerEventName p))) \<and>
      wellOrdered (snd (runNextTick fuel env p)) \<and>
      keepsHistory (history p) (history (snd (runNextTick fuel env p))) \<and>
      wellOrdered (emitDeferredEvents p) \<and>
      keepsHistory (history p) (history (emitDeferredEvents p))"
    using put triggered fired emitted ticked by (simp add: grows_def)
  from arrives handled returns emits places waits ends last along runs show ?thesis
    by (intro conjI)
qed

theorem C6_witness:
  "wellOrdered (newProcess ''id1'' 900) \<and>
   wellOrdered (snd (triggerEvent 10 splitEnv ''start'' Undefined (newProcess ''id1'' 900))) \<and>
   keepsHistory (history (newProcess ''id1'' 900))
     (history (snd (triggerEvent 10 splitEnv ''start'' Undefined (newProcess ''id1'' 900)))) \<and>
   trace (snd (triggerEvent 10 splitEnv ''start'' Undefined (newProcess ''id1'' 900))) =
     [TokenPut ''start'', EntryAdded ''start'', TokenArrived ''start'',
      DefaultEventHandlerCalled ''callHandler'' ''start'' ''start'',
      EndSet ''start'', TokenEmitted ''start'' [], TokenPut ''gw'',
      EntryAdded ''gw'', TokenArrived ''gw'',
      DefaultEventHandlerCalled ''callHandler'' ''gw'' ''gw'', EndSet ''gw'',
      HandlerCalled ''gw$toA'' Undefined, HandlerCalled ''gw$toB'' Undefined,
      TokenEmitted ''gw'' ''toB'', TokenPut ''B'', EntryAdded ''B'',
      TokenArrived ''B'', HandlerCalled ''B'' (JObj []), EndSet ''B'',
      TokenEmitted ''B'' [], TokenPut ''end'', EntryAdded ''end'',
      TokenArrived ''end'',
      DefaultEventHandlerCalled ''callHandler'' ''end'' ''end'',
      EndSet ''end''] \<and>
   getFlowObjectByName (processDefinition splitEnv) ''B'' = Inr (Some taskB) \<and>
   isIntermediateCatchEvent taskB = False \<and>
   emit (putTokenAt 5 splitEnv) splitEnv (Event TOKEN_ARRIVED_EVENT ''B'' (JObj []))
       (arrival splitEnv taskB beforeB) =
     tokenArrived_handlerDone (putTokenAt 5 splitEnv) splitEnv taskB (JObj []) calledAtB \<and>
   stillWaiting joinEnv joinGateway firstAtJoin \<and>
   history (snd (emitTokens (putTokenAt 5 joinEnv) joinEnv joinGateway Undefined False firstAtJoin)) =
     history firstAtJoin"
proof -
  have fresh: "wellOrdered (newProcess ''id1'' 900)"
    by code_simp
  note started = C6_history_before_handler_and_tokens [where p = "newProcess ''id1'' 900"
      and fuel = 10 and env = splitEnv and eventName = "''start''" and data = Undefined]
  from started fresh
  have ordered: "wellOrdered (snd (triggerEvent 10 splitEnv ''start'' Undefined
                                     (newProcess ''id1'' 900)))"
    and kept: "keepsHistory (history (newProcess ''id1'' 900))
     (history (snd (triggerEvent 10 splitEnv ''start'' Undefined (newProcess ''id1'' 900))))"
    by blast+
  have run: "trace (snd (triggerEvent 10 splitEnv ''start'' Undefined (newProcess ''id1'' 900))) =
     [TokenPut ''start'', EntryAdded ''start'', TokenArrived ''start'',
      DefaultEventHandlerCalled ''callHandler'' ''start'' ''start'',
      EndSet ''start'', TokenEmitted ''start'' [], TokenPut ''gw'',
      EntryAdded ''gw'', TokenArrived ''gw'',
      DefaultEventHandlerCalled ''callHandler'' ''gw'' ''gw'', EndSet ''gw'',
      HandlerCalled ''gw$toA'' Undefined, HandlerCalled ''gw$toB'' Undefined,
      TokenEmitted ''gw'' ''toB'', TokenPut ''B'', EntryAdded ''B'',
      TokenArrived ''B'', HandlerCalled ''B'' (JObj []), EndSet ''B'',
      TokenEmitted ''B'' [], TokenPut ''end'', EntryAdded ''end'',
      TokenArrived ''end'',
      DefaultEventHandlerCalled ''callHandler'' ''end'' ''end'',
      EndSet ''end'']"
    by code_simp
  have resolves: "getFlowObjectByName (processDefinition splitEnv) ''B'' = Inr (Some taskB)"
    by code_simp
  have plain: "isIntermediateCatchEvent taskB = False"
    by code_simp
  have name: "mapName2HandlerName ''B'' = ''B''"
    by code_simp
  have handler: "getHandlerFromProcess ''B'' splitEnv = Some (HFunction (\<lambda>d. CallsDone d Undefined))"
    by (simp add: getHandlerFromProcess_def name splitEnv_def splitHandlers_def)
  have normal: "fst (tokenArrived_handlerDone (putTokenAt 5 splitEnv) splitEnv taskB (JObj [])
                       (log (HandlerCalled (mapName2HandlerName ''B'') (JObj []))
                          (log (TokenArrived ''B'') (arrival splitEnv taskB beforeB)))) = Normal"
    by code_simp
  note atB = C6_history_before_handler_and_tokens [where env = splitEnv and n = "''B''"
      and fo = taskB and put = "putTokenAt 5 splitEnv" and data = "JObj []"
      and p = "arrival splitEnv taskB beforeB"]
  from atB resolves plain
  have listened: "emit (putTokenAt 5 splitEnv) splitEnv (Event TOKEN_ARRIVED_EVENT ''B'' (JObj []))
       (arrival splitEnv taskB beforeB) =
     snd (callHandler splitEnv ''B'' (JObj [])
            (tokenArrived_handlerDone (putTokenAt 5 splitEnv) splitEnv taskB)
            (log (TokenArrived ''B'') (arrival splitEnv taskB beforeB)))"
    by blast
  note called = C6_history_before_handler_and_tokens [where env = splitEnv and n = "''B''"
      and f = "\<lambda>d. CallsDone d Undefined" and data = "JObj []" and d = "JObj []" and r = Undefined
      and ?done = "tokenArrived_handlerDone (putTokenAt 5 splitEnv) splitEnv taskB"
      and p = "log (TokenArrived ''B'') (arrival splitEnv taskB beforeB)"]
  from called handler normal
  have "snd (callHandler splitEnv ''B'' (JObj [])
            (tokenArrived_handlerDone (putTokenAt 5 splitEnv) splitEnv taskB)
            (log (TokenArrived ''B'') (arrival splitEnv taskB beforeB))) =
        tokenArrived_handlerDone (putTokenAt 5 splitEnv) splitEnv taskB (JObj [])
          (log (HandlerCalled (mapName2HandlerName ''B'') (JObj []))
             (log (TokenArrived ''B'') (arrival splitEnv taskB beforeB)))"
    by blast
  with listened
  have done_called: "emit (putTokenAt 5 splitEnv) splitEnv (Event TOKEN_ARRIVED_EVENT ''B'' (JObj []))
       (arrival splitEnv taskB beforeB) =
     tokenArrived_handlerDone (putTokenAt 5 splitEnv) splitEnv taskB (JObj []) calledAtB"
    by (simp add: calledAtB_def name)
  have waiting: "stillWaiting joinEnv joinGateway firstAtJoin"
    by code_simp
  note atJoin = C6_history_before_handler_and_tokens [where env = joinEnv and fo = joinGateway
      and put = "putTokenAt 5 joinEnv" and data = Undefined and returning = False
      and p = firstAtJoin]
  from atJoin waiting
  have unchanged: "history (snd (emitTokens (putTokenAt 5 joinEnv) joinEnv joinGateway Undefined
                                  False firstAtJoin)) = history firstAtJoin"
    by blast
  from fresh ordered kept run resolves plain done_called waiting unchanged show ?thesis
    by (intro conjI)
qed

theorem C6_counterexample:
  "fst joinRun = Normal \<and>
   tokens (snd joinRun) = [] \<and>
   list_ex (\<lambda>a. a = TokenEmitted ''join'' []) (trace (snd joinRun)) \<and>
   map (\<lambda>e. (entryName e, entryEnd e)) (historyEntries (history (snd joinRun))) =
     [(''start'', Some 2000), (''split'', Some 2000), (''A'', Some 2000), (''B'', Some 2000),
      (''join'', None), (''join'', Some 2000), (''end'', Some 2000)] \<and>
   map (\<lambda>e. (entryName e, entryEnd e)) (historyEntries (history calledAtB)) =
     [(''start'', Some 950), (''gw'', Some 950), (''B'', None)] \<and>
   map (\<lambda>e. (entryName e, entryEnd e))
     (historyEntries (history (snd (tokenArrived_handlerDone (putTokenAt 5 splitEnv) splitEnv taskB
                                      (JObj []) calledAtB)))) =
     [(''start'', Some 950), (''gw'', Some 950), (''B'', Some 1000), (''end'', Some 1000)]"
proof -
  have returns: "fst joinRun = Normal"
    by code_simp
  have finished: "tokens (snd joinRun) = []"
    by code_simp
  have moved: "list_ex (\<lambda>a. a = TokenEmitted ''join'' []) (trace (snd joinRun))"
    by code_simp
  have entries: "map (\<lambda>e. (entryName e, entryEnd e)) (historyEntries (history (snd joinRun))) =
     [(''start'', Some 2000), (''split'', Some 2000), (''A'', Some 2000), (''B'', Some 2000),
      (''join'', None), (''join'', Some 2000), (''end'', Some 2000)]"
    by code_simp
  have called: "map (\<lambda>e. (entryName e, entryEnd e)) (historyEntries (history calledAtB)) =
     [(''start'', Some 950), (''gw'', Some 950), (''B'', None)]"
    by code_simp
  have returned: "map (\<lambda>e. (entryName e, entryEnd e))
     (historyEntries (history (snd (tokenArrived_handlerDone (putTokenAt 5 splitEnv) splitEnv taskB
                                      (JObj []) calledAtB)))) =
     [(''start'', Some 950), (''gw'', Some 950), (''B'', Some 1000), (''end'', Some 1000)]"
    by code_simp
  from returns finished moved entries called returned show ?thesis
    by (intro conjI)
qed

end
